theory Spec2Isabelle
  imports Complex_Main
begin

section \<open>Camel Race: the simulation core of game.js\<close>

text \<open>
  The repository is a three-lane endless runner written in JavaScript. This theory embeds
  the simulation core of \<^verbatim>\<open>src/game.js\<close>: the classes \<^verbatim>\<open>Player\<close>, \<^verbatim>\<open>Obstacle\<close> and
  \<^verbatim>\<open>Game\<close> with the methods that change their fields, and proves properties of them.

  Conventions of the embedding.
  \<^item> A JavaScript number is modelled as a \<^typ>\<open>real\<close>: arithmetic is exact, and the
    values NaN and the two infinities do not exist. Where the source relies on one of
    them (the start value \<^verbatim>\<open>-Infinity\<close> of \<^verbatim>\<open>bestTime\<close>, a division by a zero speed)
    the model writes the case out. Integer-valued fields (\<^verbatim>\<open>lives\<close>, indices) are
    \<^typ>\<open>int\<close> or \<^typ>\<open>nat\<close>.
  \<^item> A class is a record; a method takes the object and returns the changed object.
    The fields \<^verbatim>\<open>x\<close>, \<^verbatim>\<open>y\<close>, \<^verbatim>\<open>width\<close>, \<^verbatim>\<open>height\<close>, \<^verbatim>\<open>name\<close>, \<^verbatim>\<open>type\<close> and
    \<^verbatim>\<open>color\<close> carry the prefix \<open>p_\<close> (player) or \<open>o_\<close> (obstacle), since a record
    field is a global constant; all other fields keep their names.
  \<^item> \<^verbatim>\<open>Math.random()\<close> is an explicit random source \<open>rand :: nat \<Rightarrow> real\<close>: the
    \<open>n\<close>-th call of the run returns \<open>rand n\<close>. The number of calls made so far is the
    field \<open>draws\<close> of the game (passed and returned by the functions that draw).
  \<^item> Painting on the canvas and writing the scoreboard into the DOM change no field of
    the three classes and are left out; \<^verbatim>\<open>canvas.width\<close>, which the obstacle spawn
    reads, is a parameter \<open>cw\<close> of the tick.
  \<^item> A \<^verbatim>\<open>while\<close> loop whose termination depends on the data is a
    \<^theory_text>\<open>partial_function (option)\<close>: \<open>None\<close> means that the loop runs forever.
\<close>

subsection \<open>Player\<close>

record player =
  p_name :: string
  lane :: nat
  isBot :: bool
  errorRate :: real
  p_x :: real
  p_y :: real
  vy :: real
  p_width :: real
  p_height :: real
  gravity :: real
  jumpVelocity :: real
  doubleJumpAvailable :: bool
  lives :: int
  invulnerable :: bool
  invulnTimer :: real
  time :: real
  out :: bool
  passedObstacles :: nat

text \<open>The constructor \<^verbatim>\<open>Player(name, lane, isBot = false, errorRate = 0.1)\<close>.\<close>

definition Player :: "string \<Rightarrow> nat \<Rightarrow> bool \<Rightarrow> real \<Rightarrow> player" where
  "Player nm l b er =
     \<lparr> p_name = nm, lane = l, isBot = b, errorRate = er,
       p_x = 150, p_y = 0, vy = 0, p_width = 60, p_height = 40,
       gravity = 2000, jumpVelocity = 700, doubleJumpAvailable = True,
       lives = 3, invulnerable = False, invulnTimer = 0, time = 0,
       out = False, passedObstacles = 0 \<rparr>"

text \<open>\<^verbatim>\<open>Player.jump()\<close>: the early return, the grounded jump, the double jump.\<close>

definition jump :: "player \<Rightarrow> player" where
  "jump p =
     (if out p then p
      else if p_y p = 0 then
        p\<lparr>vy := - jumpVelocity p, doubleJumpAvailable := True\<rparr>
      else if doubleJumpAvailable p then
        p\<lparr>vy := - jumpVelocity p, doubleJumpAvailable := False\<rparr>
      else p)"

text \<open>
  \<^verbatim>\<open>Player.updatePhysics(dt)\<close>, statement by statement: gravity (\<open>p1\<close>, \<open>p2\<close>), the
  clamp to the ground (\<open>p3\<close>), the invulnerability timer (\<open>p4\<close>), the survival time.
\<close>

definition updatePhysics :: "player \<Rightarrow> real \<Rightarrow> player" where
  "updatePhysics p dt =
     (if out p then p
      else
        (let p1 = p\<lparr>vy := vy p + gravity p * dt\<rparr>;
             p2 = p1\<lparr>p_y := p_y p1 + vy p1 * dt\<rparr>;
             p3 = (if p_y p2 > 0
                   then p2\<lparr>p_y := 0, vy := 0, doubleJumpAvailable := True\<rparr>
                   else p2);
             p4 = (if invulnerable p3 then
                     (let q = p3\<lparr>invulnTimer := invulnTimer p3 - dt\<rparr>
                      in if invulnTimer q \<le> 0 then q\<lparr>invulnerable := False\<rparr> else q)
                   else p3)
         in p4\<lparr>time := time p4 + dt\<rparr>))"

subsection \<open>Obstacle\<close>

text \<open>
  The \<^verbatim>\<open>type\<close> argument of the constructor is any JavaScript value; the model has the
  strings and \<^verbatim>\<open>undefined\<close> (what \<^verbatim>\<open>types[i]\<close> gives outside the array). A colour
  is the CSS text the constructor builds, \<^verbatim>\<open>hsl(h, s%, l%)\<close> or a hexadecimal literal.
\<close>

datatype tag = Str string | Undefined

datatype colour = Hsl real nat nat | Hex string

record obstacle =
  o_x :: real
  o_type :: tag
  o_width :: real
  o_height :: real
  o_color :: colour

text \<open>
  The constructor \<^verbatim>\<open>Obstacle(x, type)\<close> with its \<^verbatim>\<open>switch\<close>. It draws from
  \<^verbatim>\<open>Math.random()\<close> in the order width, height, hue, starting at draw \<open>n\<close>, and
  returns the number of the next draw with the obstacle.
\<close>

definition Obstacle :: "(nat \<Rightarrow> real) \<Rightarrow> nat \<Rightarrow> real \<Rightarrow> tag \<Rightarrow> obstacle \<times> nat" where
  "Obstacle rand n x0 ty =
     (if ty = Str ''snake'' then
        (\<lparr> o_x = x0, o_type = ty, o_width = 50 + rand n * 30,
           o_height = 20 + rand (n + 1) * 10,
           o_color = Hsl (90 + rand (n + 2) * 60) 50 40 \<rparr>, n + 3)
      else if ty = Str ''rock'' then
        (\<lparr> o_x = x0, o_type = ty, o_width = 40 + rand n * 30,
           o_height = 30 + rand (n + 1) * 20,
           o_color = Hsl (20 + rand (n + 2) * 20) 30 40 \<rparr>, n + 3)
      else if ty = Str ''hole'' then
        (\<lparr> o_x = x0, o_type = ty, o_width = 70 + rand n * 50,
           o_height = 1, o_color = Hex ''#000000'' \<rparr>, n + 1)
      else
        (\<lparr> o_x = x0, o_type = ty, o_width = 50 + rand n * 30,
           o_height = 40 + rand (n + 1) * 20,
           o_color = Hsl (330 + rand (n + 2) * 30) 60 50 \<rparr>, n + 3))"

subsection \<open>Game\<close>

text \<open>
  The fields of \<^verbatim>\<open>Game\<close>. \<^verbatim>\<open>lastTime\<close> and \<^verbatim>\<open>winnerIndex\<close> start as \<^verbatim>\<open>null\<close>
  (\<open>None\<close>). The parallel arrays \<^verbatim>\<open>bgOffsets\<close> and \<^verbatim>\<open>bgRadii\<close>, which hold one entry
  per lane, are the one list \<open>bgLanes\<close> of pairs (offset, radii). \<open>draws\<close> counts the
  calls of \<^verbatim>\<open>Math.random()\<close>. \<^verbatim>\<open>scoreboardEntries\<close> belongs to the DOM and is left out.
\<close>

record game =
  laneCount :: nat
  playerCount :: nat
  players :: "player list"
  obstacles :: "obstacle list"
  speed :: real
  baseSpeed :: real
  elapsedTime :: real
  nextSpeedIncreaseAt :: real
  speedIncreaseFactor :: real
  gameOver :: bool
  lastTime :: "real option"
  spawnGapMin :: real
  spawnGapMax :: real
  baseSpawnGapMin :: real
  baseSpawnGapMax :: real
  spawnTimer :: real
  baseMinSpawnTime :: real
  baseMaxSpawnTime :: real
  nextSpawnInterval :: real
  winnerIndex :: "int option"
  bgLanes :: "(real \<times> real list) list"
  bgSpeedFactor :: real
  bgPatternWidth :: real
  bgBaseRadius :: real
  draws :: nat

text \<open>\<^verbatim>\<open>Game.randomSpawnInterval()\<close>: the interval and the game after the draw.\<close>

definition randomSpawnInterval :: "(nat \<Rightarrow> real) \<Rightarrow> game \<Rightarrow> real \<times> game" where
  "randomSpawnInterval rand g =
     (baseMinSpawnTime g + rand (draws g) * (baseMaxSpawnTime g - baseMinSpawnTime g),
      g\<lparr>draws := Suc (draws g)\<rparr>)"

text \<open>
  \<^verbatim>\<open>Game.initBackgroundRadii()\<close>: every lane gets
  \<^verbatim>\<open>Math.ceil(canvas.width / bgPatternWidth) + 2\<close> fresh radii; the offsets stay.
  (The pattern width is 300 in every game the constructor makes; the quotient for a
  pattern width of 0, infinite in JavaScript, is not modelled.)
\<close>

fun freshRadii :: "(nat \<Rightarrow> real) \<Rightarrow> real \<Rightarrow> nat \<Rightarrow> nat \<Rightarrow> real list" where
  "freshRadii rand r n 0 = []"
| "freshRadii rand r n (Suc k) = r * (0.7 + rand n * 0.8) # freshRadii rand r (Suc n) k"

fun initLanes ::
  "(nat \<Rightarrow> real) \<Rightarrow> real \<Rightarrow> nat \<Rightarrow> (real \<times> real list) list \<Rightarrow> nat \<Rightarrow> (real \<times> real list) list \<times> nat"
where
  "initLanes rand r k [] n = ([], n)"
| "initLanes rand r k ((off, radii) # ls) n =
     (let (ls', n') = initLanes rand r k ls (n + k)
      in ((off, freshRadii rand r n k) # ls', n'))"

definition initBackgroundRadii :: "(nat \<Rightarrow> real) \<Rightarrow> real \<Rightarrow> game \<Rightarrow> game" where
  "initBackgroundRadii rand cw g =
     (let segmentsNeeded = nat (\<lceil>cw / bgPatternWidth g\<rceil> + 2);
          (ls, n) = initLanes rand (bgBaseRadius g) segmentsNeeded (bgLanes g) (draws g)
      in g\<lparr>bgLanes := ls, draws := n\<rparr>)"

text \<open>
  \<^verbatim>\<open>Game.initializePlayers(playerNames, botCount)\<close>: the humans, the bots, and
  placeholder bots (error rate 1) until there are \<^verbatim>\<open>laneCount\<close> players. \<open>showNat\<close>
  is the decimal text of a number in the template string \<^verbatim>\<open>`Bot ${b + 1}`\<close>.
\<close>

fun showNat :: "nat \<Rightarrow> string" where
  "showNat n =
     (if n < 10 then [''0123456789'' ! n]
      else showNat (n div 10) @ [''0123456789'' ! (n mod 10)])"

fun addHumans :: "nat \<Rightarrow> string list \<Rightarrow> player list \<Rightarrow> player list" where
  "addHumans i [] ps = ps"
| "addHumans i (nm # nms) ps = addHumans (Suc i) nms (ps @ [Player nm i False 0.1])"

fun addBots :: "nat \<Rightarrow> nat \<Rightarrow> player list \<Rightarrow> player list" where
  "addBots b 0 ps = ps"
| "addBots b (Suc k) ps =
     addBots (Suc b) k (ps @ [Player (''Bot '' @ showNat (b + 1)) (length ps) True 0.05])"

function fillLanes :: "nat \<Rightarrow> player list \<Rightarrow> player list" where
  "fillLanes lc ps =
     (if length ps < lc
      then fillLanes lc (ps @ [Player (''Bot '' @ showNat (length ps + 1)) (length ps) True 1])
      else ps)"
  by pat_completeness auto
termination
  by (relation "measure (\<lambda>(lc, ps). lc - length ps)") auto

text \<open>
  The two recursive equations with an \<^verbatim>\<open>if\<close> on the right are unfolded on demand only.
\<close>

declare showNat.simps [simp del] fillLanes.simps [simp del]

definition initializePlayers :: "string list \<Rightarrow> nat \<Rightarrow> game \<Rightarrow> game" where
  "initializePlayers playerNames botCount g =
     g\<lparr>players := fillLanes (laneCount g) (addBots 0 botCount (addHumans 0 playerNames (players g)))\<rparr>"

text \<open>
  The constructor \<^verbatim>\<open>Game(playerNames, botCount)\<close>, in the order of its statements:
  the fields, the first spawn interval, the players, the background.
\<close>

definition Game :: "(nat \<Rightarrow> real) \<Rightarrow> nat \<Rightarrow> real \<Rightarrow> string list \<Rightarrow> nat \<Rightarrow> game" where
  "Game rand n0 cw playerNames botCount =
     (let g0 = \<lparr> laneCount = 3, playerCount = length playerNames + botCount,
                 players = [], obstacles = [], speed = 400, baseSpeed = 400,
                 elapsedTime = 0, nextSpeedIncreaseAt = 5, speedIncreaseFactor = 1.3,
                 gameOver = False, lastTime = None,
                 spawnGapMin = 300, spawnGapMax = 800,
                 baseSpawnGapMin = 300, baseSpawnGapMax = 800,
                 spawnTimer = 0,
                 baseMinSpawnTime = 300 / 400, baseMaxSpawnTime = 800 / 400,
                 nextSpawnInterval = 0, winnerIndex = None,
                 bgLanes = replicate 3 (0, []), bgSpeedFactor = 0.6,
                 bgPatternWidth = 300, bgBaseRadius = 60, draws = n0 \<rparr>;
          (iv, g1) = randomSpawnInterval rand g0;
          g2 = initializePlayers playerNames botCount (g1\<lparr>nextSpawnInterval := iv\<rparr>)
      in initBackgroundRadii rand cw g2)"

text \<open>
  \<^verbatim>\<open>Game.start()\<close> resets the spawn timer and draws the first interval again; the
  request for the first animation frame belongs to the host.
\<close>

definition start :: "(nat \<Rightarrow> real) \<Rightarrow> game \<Rightarrow> game" where
  "start rand g =
     (let (iv, g1) = randomSpawnInterval rand (g\<lparr>spawnTimer := 0\<rparr>)
      in g1\<lparr>nextSpawnInterval := iv\<rparr>)"

text \<open>
  \<^verbatim>\<open>Game.spawnObstacle()\<close>: \<^verbatim>\<open>types[Math.floor(Math.random() * types.length)]\<close>, then
  the obstacle at \<^verbatim>\<open>canvas.width + 50\<close>, pushed at the end of the list.
\<close>

definition pickType :: "real \<Rightarrow> tag" where
  "pickType r =
     (let i = \<lfloor>r * 4\<rfloor>
      in if i = 0 then Str ''snake'' else if i = 1 then Str ''rock''
         else if i = 2 then Str ''hole'' else if i = 3 then Str ''spike''
         else Undefined)"

definition spawnObstacle :: "(nat \<Rightarrow> real) \<Rightarrow> real \<Rightarrow> game \<Rightarrow> game" where
  "spawnObstacle rand cw g =
     (let ty = pickType (rand (draws g));
          (obs, n) = Obstacle rand (Suc (draws g)) (cw + 50) ty
      in g\<lparr>obstacles := obstacles g @ [obs], draws := n\<rparr>)"

subsection \<open>One tick: \<^verbatim>\<open>Game.update(timestamp)\<close>\<close>

text \<open>
  The time step of a tick: \<^verbatim>\<open>if (!this.lastTime) this.lastTime = timestamp\<close>, where
  \<^verbatim>\<open>null\<close> and \<^verbatim>\<open>0\<close> are the falsy values, then the difference in seconds.
\<close>

definition frameDelta :: "game \<Rightarrow> real \<Rightarrow> real" where
  "frameDelta g timestamp =
     (let lt = (case lastTime g of None \<Rightarrow> timestamp
                | Some t \<Rightarrow> if t = 0 then timestamp else t)
      in (timestamp - lt) / 1000)"

text \<open>The difficulty ramp: the elapsed time grows, and one \<^verbatim>\<open>if\<close> raises the speed.\<close>

definition rampDifficulty :: "game \<Rightarrow> real \<Rightarrow> game" where
  "rampDifficulty g dt =
     (let g1 = g\<lparr>elapsedTime := elapsedTime g + dt\<rparr>
      in if elapsedTime g1 \<ge> nextSpeedIncreaseAt g1
         then g1\<lparr>speed := speed g1 * speedIncreaseFactor g1,
                 nextSpeedIncreaseAt := nextSpeedIncreaseAt g1 + 5\<rparr>
         else g1)"

text \<open>
  The parallax background. Per lane the offset moves left, and a \<^verbatim>\<open>while\<close> loop wraps
  it by one pattern width at a time; each round drops the first radius
  (\<^verbatim>\<open>shift()\<close>, which leaves an empty array empty) and pushes a random one.
\<close>

partial_function (option) wrapOffset ::
  "(nat \<Rightarrow> real) \<Rightarrow> real \<Rightarrow> real \<Rightarrow> real \<Rightarrow> real list \<Rightarrow> nat \<Rightarrow> (real \<times> real list \<times> nat) option"
where
  "wrapOffset rand w r off radii n =
     (if off \<le> - w
      then wrapOffset rand w r (off + w) (tl radii @ [r * (0.7 + rand n * 0.8)]) (Suc n)
      else Some (off, radii, n))"

fun scrollLanes ::
  "(nat \<Rightarrow> real) \<Rightarrow> real \<Rightarrow> real \<Rightarrow> real \<Rightarrow> (real \<times> real list) list \<Rightarrow> nat
     \<Rightarrow> ((real \<times> real list) list \<times> nat) option"
where
  "scrollLanes rand w r d [] n = Some ([], n)"
| "scrollLanes rand w r d ((off, radii) # ls) n =
     (case wrapOffset rand w r (off - d) radii n of
        None \<Rightarrow> None
      | Some (off', radii', n') \<Rightarrow>
          (case scrollLanes rand w r d ls n' of
             None \<Rightarrow> None
           | Some (ls', n'') \<Rightarrow> Some ((off', radii') # ls', n'')))"

definition scrollBackground :: "(nat \<Rightarrow> real) \<Rightarrow> game \<Rightarrow> real \<Rightarrow> game option" where
  "scrollBackground rand g dt =
     (case scrollLanes rand (bgPatternWidth g) (bgBaseRadius g)
             (speed g * bgSpeedFactor g * dt) (bgLanes g) (draws g) of
        None \<Rightarrow> None
      | Some (ls, n) \<Rightarrow> Some (g\<lparr>bgLanes := ls, draws := n\<rparr>))"

text \<open>
  The obstacles move left by \<^verbatim>\<open>speed * dt\<close>; then those at the front whose right edge
  is left of the screen are removed (\<^verbatim>\<open>while (... ) this.obstacles.shift()\<close>).
\<close>

fun cull :: "obstacle list \<Rightarrow> obstacle list" where
  "cull [] = []"
| "cull (ob # obs) = (if o_x ob + o_width ob < 0 then cull obs else ob # obs)"

definition moveObstacles :: "game \<Rightarrow> real \<Rightarrow> game" where
  "moveObstacles g dt =
     g\<lparr>obstacles := cull (map (\<lambda>ob. ob\<lparr>o_x := o_x ob - speed g * dt\<rparr>) (obstacles g))\<rparr>"

text \<open>
  The spawn scheduler. \<open>spawnOnce\<close> is the body of the \<^verbatim>\<open>while\<close> loop: subtract the
  interval, spawn, draw the next interval.
\<close>

definition spawnOnce :: "(nat \<Rightarrow> real) \<Rightarrow> real \<Rightarrow> game \<Rightarrow> game" where
  "spawnOnce rand cw g =
     (let g1 = g\<lparr>spawnTimer := spawnTimer g - nextSpawnInterval g\<rparr>;
          g2 = spawnObstacle rand cw g1;
          (iv, g3) = randomSpawnInterval rand g2
      in g3\<lparr>nextSpawnInterval := iv\<rparr>)"

partial_function (option) spawnLoop :: "(nat \<Rightarrow> real) \<Rightarrow> real \<Rightarrow> game \<Rightarrow> game option" where
  "spawnLoop rand cw g =
     (if spawnTimer g \<ge> nextSpawnInterval g
      then spawnLoop rand cw (spawnOnce rand cw g)
      else Some g)"

definition spawnDue :: "(nat \<Rightarrow> real) \<Rightarrow> real \<Rightarrow> game \<Rightarrow> real \<Rightarrow> game option" where
  "spawnDue rand cw g dt = spawnLoop rand cw (g\<lparr>spawnTimer := spawnTimer g + dt\<rparr>)"

text \<open>
  \<^verbatim>\<open>Game.handleBot(bot)\<close>: the first obstacle whose right edge is right of the bot
  decides, and the loop ends there. \<^verbatim>\<open>Math.random()\<close> is called only when the
  obstacle is near and the bot is on the ground.

  \<open>belowThreshold d jv sp\<close> is \<^verbatim>\<open>distance < (bot.jumpVelocity / this.speed) * 200\<close>. A
  division by zero gives \<^verbatim>\<open>Infinity\<close>, \<^verbatim>\<open>-Infinity\<close> or \<^verbatim>\<open>NaN\<close> in JavaScript, and the
  comparison is true exactly for \<^verbatim>\<open>Infinity\<close>, that is for a positive numerator.
  The parameter \<^verbatim>\<open>bot\<close> is \<open>bt\<close> here (\<open>bot\<close> is a constant of HOL).
\<close>

definition belowThreshold :: "real \<Rightarrow> real \<Rightarrow> real \<Rightarrow> bool" where
  "belowThreshold d jv sp = (if sp = 0 then jv > 0 else d < (jv / sp) * 200)"

fun handleBot :: "(nat \<Rightarrow> real) \<Rightarrow> real \<Rightarrow> obstacle list \<Rightarrow> player \<Rightarrow> nat \<Rightarrow> player \<times> nat" where
  "handleBot rand sp [] bt n = (bt, n)"
| "handleBot rand sp (ob # obs) bt n =
     (if o_x ob + o_width ob > p_x bt then
        (let distance = o_x ob - p_x bt
         in if belowThreshold distance (jumpVelocity bt) sp \<and> p_y bt = 0
            then (if rand n > errorRate bt then (jump bt, Suc n) else (bt, Suc n))
            else (bt, n))
      else handleBot rand sp obs bt n)"

text \<open>
  The collision test of a tick. \<open>hit\<close> is what a collision does to the player;
  \<open>collide\<close> is the loop over the obstacles with its \<^verbatim>\<open>break\<close> after a hit. (The
  statement \<^verbatim>\<open>player.time = player.time\<close> of the source changes nothing.)
\<close>

definition overlaps :: "obstacle \<Rightarrow> player \<Rightarrow> bool" where
  "overlaps ob p = (o_x ob < p_x p + p_width p \<and> o_x ob + o_width ob > p_x p)"

definition hit :: "player \<Rightarrow> player" where
  "hit p =
     (let p1 = p\<lparr>lives := lives p - 1, invulnerable := True, invulnTimer := 0.7\<rparr>
      in if lives p1 \<le> 0 then p1\<lparr>out := True\<rparr> else p1)"

fun collide :: "player \<Rightarrow> obstacle list \<Rightarrow> player" where
  "collide p [] = p"
| "collide p (ob # obs) =
     (if overlaps ob p then (if p_y p \<ge> 0 then hit p else collide p obs)
      else collide p obs)"

text \<open>
  The body of the loop over the players for one player that is not out: the bot's
  decision, the physics, the collision test unless invulnerable.
\<close>

definition updatePlayer ::
  "(nat \<Rightarrow> real) \<Rightarrow> real \<Rightarrow> obstacle list \<Rightarrow> real \<Rightarrow> player \<Rightarrow> nat \<Rightarrow> player \<times> nat"
where
  "updatePlayer rand sp obs dt p n =
     (let (p1, n1) = (if isBot p then handleBot rand sp obs p n else (p, n));
          p2 = updatePhysics p1 dt;
          p3 = (if \<not> invulnerable p2 then collide p2 obs else p2)
      in (p3, n1))"

text \<open>The loop over the players; the third component is \<^verbatim>\<open>outCount\<close>.\<close>

fun updatePlayers ::
  "(nat \<Rightarrow> real) \<Rightarrow> real \<Rightarrow> obstacle list \<Rightarrow> real \<Rightarrow> player list \<Rightarrow> nat
     \<Rightarrow> player list \<times> nat \<times> nat"
where
  "updatePlayers rand sp obs dt [] n = ([], n, 0)"
| "updatePlayers rand sp obs dt (p # ps) n =
     (let (p', n') = (if \<not> out p then updatePlayer rand sp obs dt p n else (p, n));
          (ps', n'', c) = updatePlayers rand sp obs dt ps n'
      in (p' # ps', n'', (if out p' then Suc c else c)))"

text \<open>
  \<^verbatim>\<open>Game.endGame()\<close>. \<open>findWinner\<close> is the \<^verbatim>\<open>forEach\<close> over the players with the index
  \<open>idx\<close>; \<open>best\<close> is \<^verbatim>\<open>bestTime\<close>, with \<open>None\<close> for its start value \<^verbatim>\<open>-Infinity\<close>, which
  every time exceeds. The results panel shown after a second belongs to the DOM.
\<close>

fun findWinner :: "player list \<Rightarrow> nat \<Rightarrow> real option \<Rightarrow> int \<Rightarrow> int" where
  "findWinner [] idx best w = w"
| "findWinner (p # ps) idx best w =
     (if (case best of None \<Rightarrow> True | Some b \<Rightarrow> time p > b)
      then findWinner ps (Suc idx) (Some (time p)) (int idx)
      else findWinner ps (Suc idx) best w)"

definition endGame :: "game \<Rightarrow> game" where
  "endGame g = g\<lparr>gameOver := True, winnerIndex := Some (findWinner (players g) 0 None (- 1))\<rparr>"

text \<open>
  \<^verbatim>\<open>Game.update(timestamp)\<close>: nothing once the game is over; otherwise the time step,
  the difficulty, the background, the obstacles, the spawns, the players, and the end
  of the game when \<^verbatim>\<open>outCount >= laneCount\<close>.
\<close>

definition update :: "(nat \<Rightarrow> real) \<Rightarrow> real \<Rightarrow> real \<Rightarrow> game \<Rightarrow> game option" where
  "update rand cw timestamp g =
     (if gameOver g then Some g
      else
        (let dt = frameDelta g timestamp;
             g1 = rampDifficulty (g\<lparr>lastTime := Some timestamp\<rparr>) dt
         in case scrollBackground rand g1 dt of
              None \<Rightarrow> None
            | Some g2 \<Rightarrow>
                (case spawnDue rand cw (moveObstacles g2 dt) dt of
                   None \<Rightarrow> None
                 | Some g3 \<Rightarrow>
                     (let (ps, n, outCount) =
                            updatePlayers rand (speed g3) (obstacles g3) dt (players g3) (draws g3);
                          g4 = g3\<lparr>players := ps, draws := n\<rparr>
                      in Some (if outCount \<ge> laneCount g4 then endGame g4 else g4)))))"

text \<open>
  The jump command of the host (key, mouse or touch) reaches one player:
  \<^verbatim>\<open>game.players[i].jump()\<close>, and nothing when there is no such player.
\<close>

definition jumpPlayer :: "nat \<Rightarrow> game \<Rightarrow> game" where
  "jumpPlayer i g =
     (if i < length (players g) then g\<lparr>players := (players g)[i := jump (players g ! i)]\<rparr> else g)"

subsection \<open>Standing assumptions\<close>

text \<open>
  \<open>unitDraws\<close> is the contract of \<^verbatim>\<open>Math.random()\<close>: every draw lies in \<open>[0, 1)\<close>.
  \<open>wellFormed\<close> collects what the two \<^verbatim>\<open>while\<close> loops of a tick need in order to end:
  a positive pattern width, a positive minimal spawn time, and a spawn interval
  between the two base spawn times. The constructor establishes it, and a tick keeps it.
  \<open>beforeCollision\<close> names the player inside \<open>updatePlayer\<close> at the moment the collision
  test starts, after the bot's decision and the physics.
\<close>

definition unitDraws :: "(nat \<Rightarrow> real) \<Rightarrow> bool" where
  "unitDraws rand = (\<forall>n. 0 \<le> rand n \<and> rand n < 1)"

definition wellFormed :: "game \<Rightarrow> bool" where
  "wellFormed g =
     (0 < bgPatternWidth g \<and> 0 < baseMinSpawnTime g
      \<and> baseMinSpawnTime g \<le> baseMaxSpawnTime g
      \<and> baseMinSpawnTime g \<le> nextSpawnInterval g
      \<and> nextSpawnInterval g \<le> baseMaxSpawnTime g)"

definition beforeCollision ::
  "(nat \<Rightarrow> real) \<Rightarrow> real \<Rightarrow> obstacle list \<Rightarrow> real \<Rightarrow> player \<Rightarrow> nat \<Rightarrow> player"
where
  "beforeCollision rand sp obs dt p n =
     updatePhysics (if isBot p then fst (handleBot rand sp obs p n) else p) dt"

subsection \<open>Reachable games\<close>

text \<open>
  The games a run can reach: the game the constructor and \<^verbatim>\<open>start()\<close> make; a tick that
  returns; a jump command for player \<open>i\<close>; a window resize, which calls
  \<^verbatim>\<open>initBackgroundRadii()\<close>. Every step may use its own random source, since other
  code draws from \<^verbatim>\<open>Math.random()\<close> between the steps. \<open>lifeInv\<close> is the invariant of
  a player that the proofs carry along.
\<close>

inductive reachable :: "game \<Rightarrow> bool" where
  started: "unitDraws rand \<Longrightarrow> reachable (start rand (Game rand n0 cw nms k))"
| ticked: "reachable g \<Longrightarrow> unitDraws rand \<Longrightarrow> update rand cw ts g = Some g' \<Longrightarrow> reachable g'"
| jumped: "reachable g \<Longrightarrow> reachable (jumpPlayer i g)"
| resized: "reachable g \<Longrightarrow> unitDraws rand \<Longrightarrow> reachable (initBackgroundRadii rand cw g)"

definition lifeInv :: "player \<Rightarrow> bool" where
  "lifeInv p = ((out p \<longleftrightarrow> lives p = 0) \<and> 0 \<le> lives p \<and> lives p \<le> 3)"

subsection \<open>Example runs\<close>

text \<open>
  Concrete runs for the examples below. \<open>freshGame rand cw\<close> is the game the page starts
  (\<^verbatim>\<open>startGame([name], 2)\<close>: one human and two bots) on a canvas \<open>cw\<close> pixels wide, and
  \<open>frame rand cw ts g\<close> is \<open>g\<close> after the animation frame with timestamp \<open>ts\<close>. All
  example games are reached from a fresh game by frames alone:
  \<^item> \<open>stalled\<close> and \<open>late\<close> have seen one frame, at 1000 ms and at 2000 ms;
  \<^item> \<open>narrow\<close> is a game on a canvas 100 pixels wide, where an obstacle appears at the
    players' position \<open>x = 150\<close>, after its first frame; with the draws all 0 an obstacle
    appears every 0.75 s and no bot jumps;
  \<^item> \<open>lastLife\<close> is \<open>narrow\<close> after two more frames, 0.75 s apart: every player has been
    hit twice.
\<close>

abbreviation halfDraws :: "nat \<Rightarrow> real" where
  "halfDraws \<equiv> (\<lambda>i. 1 / 2)"

abbreviation zeroDraws :: "nat \<Rightarrow> real" where
  "zeroDraws \<equiv> (\<lambda>i. 0)"

abbreviation frame :: "(nat \<Rightarrow> real) \<Rightarrow> real \<Rightarrow> real \<Rightarrow> game \<Rightarrow> game" where
  "frame rand cw ts g \<equiv> the (update rand cw ts g)"

abbreviation freshGame :: "(nat \<Rightarrow> real) \<Rightarrow> real \<Rightarrow> game" where
  "freshGame rand cw \<equiv> start rand (Game rand 0 cw [''Player''] 2)"

abbreviation stalled :: game where
  "stalled \<equiv> frame halfDraws 800 1000 (freshGame halfDraws 800)"

abbreviation late :: game where
  "late \<equiv> frame halfDraws 800 2000 (freshGame halfDraws 800)"

abbreviation narrow :: game where
  "narrow \<equiv> frame zeroDraws 100 1000 (freshGame zeroDraws 100)"

abbreviation lastLife :: game where
  "lastLife \<equiv> frame zeroDraws 100 2500 (frame zeroDraws 100 1750 narrow)"

section \<open>Properties\<close>

subsection \<open>One player in one tick\<close>

lemma jump_keeps [simp]:
  "lives (jump p) = lives p" "out (jump p) = out p" "time (jump p) = time p"
  "invulnerable (jump p) = invulnerable p" "invulnTimer (jump p) = invulnTimer p"
  "p_x (jump p) = p_x p" "p_y (jump p) = p_y p" "p_width (jump p) = p_width p"
  "isBot (jump p) = isBot p" "errorRate (jump p) = errorRate p"
  "jumpVelocity (jump p) = jumpVelocity p" "gravity (jump p) = gravity p"
  by (simp_all add: jump_def)

lemma updatePhysics_airborne:
  assumes "\<not> out p" and "p_y (updatePhysics p dt) \<noteq> 0"
  shows "doubleJumpAvailable (updatePhysics p dt) = doubleJumpAvailable p"
    and "out (updatePhysics p dt) = out p"
  using assms
  by (auto simp: updatePhysics_def Let_def split: if_splits)

lemma handleBot_find:
  "handleBot rand sp obs bt n =
     (case find (\<lambda>ob. o_x ob + o_width ob > p_x bt) obs of
        None \<Rightarrow> (bt, n)
      | Some ob \<Rightarrow>
          if belowThreshold (o_x ob - p_x bt) (jumpVelocity bt) sp \<and> p_y bt = 0
          then (if rand n > errorRate bt then (jump bt, Suc n) else (bt, Suc n))
          else (bt, n))"
  by (induction obs) (simp_all add: Let_def)

lemma handleBot_result:
  "fst (handleBot rand sp obs bt n) = bt \<or> fst (handleBot rand sp obs bt n) = jump bt"
  by (simp add: handleBot_find split: option.split)

lemma collide_cases:
  "collide p obs = (if p_y p \<ge> 0 \<and> (\<exists>ob \<in> set obs. overlaps ob p) then hit p else p)"
  by (induction obs) auto

lemma handleBot_keeps [simp]:
  "lives (fst (handleBot rand sp obs p n)) = lives p"
  "out (fst (handleBot rand sp obs p n)) = out p"
  "time (fst (handleBot rand sp obs p n)) = time p"
  "invulnerable (fst (handleBot rand sp obs p n)) = invulnerable p"
  "invulnTimer (fst (handleBot rand sp obs p n)) = invulnTimer p"
  using handleBot_result [of rand sp obs p n] by auto

lemma updatePhysics_keeps [simp]:
  "lives (updatePhysics p dt) = lives p"
  "out (updatePhysics p dt) = out p"
  by (simp_all add: updatePhysics_def Let_def)

lemma updatePhysics_time:
  "time (updatePhysics p dt) = (if out p then time p else time p + dt)"
  by (simp add: updatePhysics_def Let_def)

lemma hit_fields [simp]:
  "lives (hit p) = lives p - 1" "invulnerable (hit p)" "invulnTimer (hit p) = 0.7"
  "time (hit p) = time p" "out (hit p) = (out p \<or> lives p \<le> 1)"
  by (auto simp: hit_def Let_def)

lemma beforeCollision_keeps [simp]:
  "lives (beforeCollision rand sp obs dt p n) = lives p"
  "out (beforeCollision rand sp obs dt p n) = out p"
  "time (beforeCollision rand sp obs dt p n) = (if out p then time p else time p + dt)"
  by (simp_all add: beforeCollision_def updatePhysics_time)

lemma updatePlayer_eq:
  "fst (updatePlayer rand sp obs dt p n) =
     (if invulnerable (beforeCollision rand sp obs dt p n)
      then beforeCollision rand sp obs dt p n
      else collide (beforeCollision rand sp obs dt p n) obs)"
  by (simp add: updatePlayer_def beforeCollision_def Let_def split_def)

lemma updatePlayer_time:
  "\<not> out p \<Longrightarrow> time (fst (updatePlayer rand sp obs dt p n)) = time p + dt"
  by (simp add: updatePlayer_eq collide_cases)

subsection \<open>The loops of a tick end\<close>

text \<open>
  The background loop ends when the pattern width is positive: the number of rounds is
  bounded by \<open>\<lfloor>- off / w\<rfloor>\<close>. The spawn loop ends when the intervals are at least
  \<open>baseMinSpawnTime > 0\<close>: the number of rounds is bounded by
  \<open>\<lfloor>spawnTimer / baseMinSpawnTime\<rfloor>\<close>. \<open>spawnLoop_spec\<close> says what the spawn loop returns.
\<close>

lemma wrapOffset_total_aux:
  "0 < w \<Longrightarrow> nat \<lfloor>- off / w\<rfloor> \<le> k \<Longrightarrow> \<exists>res. wrapOffset rand w r off radii n = Some res"
proof (induction k arbitrary: off radii n)
  case 0
  then have "\<lfloor>- off / w\<rfloor> \<le> 0" by simp
  then have "- off / w < 1" by linarith
  with \<open>0 < w\<close> have "\<not> off \<le> - w" by (simp add: field_simps)
  then show ?case by (subst wrapOffset.simps) simp
next
  case (Suc k)
  show ?case
  proof (cases "off \<le> - w")
    case False
    then show ?thesis by (subst wrapOffset.simps) simp
  next
    case True
    with \<open>0 < w\<close> have ge: "1 \<le> - off / w" by (simp add: field_simps)
    have "- (off + w) / w = - off / w - 1"
      using \<open>0 < w\<close> by (simp add: field_simps)
    then have "\<lfloor>- (off + w) / w\<rfloor> = \<lfloor>- off / w\<rfloor> - 1" by simp
    moreover from ge have "1 \<le> \<lfloor>- off / w\<rfloor>" by linarith
    ultimately have "nat \<lfloor>- (off + w) / w\<rfloor> \<le> k"
      using Suc.prems(2) by linarith
    from Suc.IH [OF \<open>0 < w\<close> this] True show ?thesis
      by (subst wrapOffset.simps) simp
  qed
qed

lemma wrapOffset_total:
  "0 < w \<Longrightarrow> \<exists>res. wrapOffset rand w r off radii n = Some res"
  using wrapOffset_total_aux [of w off "nat \<lfloor>- off / w\<rfloor>"] by simp

lemma scrollLanes_total:
  "0 < w \<Longrightarrow> \<exists>res. scrollLanes rand w r d ls n = Some res"
proof (induction ls arbitrary: n)
  case Nil
  then show ?case by simp
next
  case (Cons a ls)
  obtain off radii where a: "a = (off, radii)" by (cases a)
  from wrapOffset_total [OF Cons.prems] obtain off' radii' n'
    where w: "wrapOffset rand w r (off - d) radii n = Some (off', radii', n')"
    by (metis prod_cases3)
  from Cons.IH [OF Cons.prems] obtain ls' n''
    where s: "scrollLanes rand w r d ls n' = Some (ls', n'')"
    by (metis surj_pair)
  show ?case by (simp add: a w s)
qed

lemma scrollBackground_total:
  "0 < bgPatternWidth g \<Longrightarrow>
   \<exists>ls n. scrollBackground rand g dt = Some (g\<lparr>bgLanes := ls, draws := n\<rparr>)"
proof -
  assume "0 < bgPatternWidth g"
  from scrollLanes_total [OF this] obtain ls n
    where "scrollLanes rand (bgPatternWidth g) (bgBaseRadius g)
             (speed g * bgSpeedFactor g * dt) (bgLanes g) (draws g) = Some (ls, n)"
    by (metis surj_pair)
  then show ?thesis by (auto simp: scrollBackground_def)
qed

lemma spawnOnce_eq:
  "spawnOnce rand cw g =
     g\<lparr>obstacles := obstacles g
          @ [fst (Obstacle rand (Suc (draws g)) (cw + 50) (pickType (rand (draws g))))],
       spawnTimer := spawnTimer g - nextSpawnInterval g,
       nextSpawnInterval := baseMinSpawnTime g
          + rand (snd (Obstacle rand (Suc (draws g)) (cw + 50) (pickType (rand (draws g)))))
            * (baseMaxSpawnTime g - baseMinSpawnTime g),
       draws := Suc (snd (Obstacle rand (Suc (draws g)) (cw + 50) (pickType (rand (draws g)))))\<rparr>"
  by (simp add: spawnOnce_def spawnObstacle_def randomSpawnInterval_def Let_def split_def)


lemma interval_in_range:
  fixes a b r :: real
  assumes "0 \<le> r" "r < 1" "a \<le> b"
  shows "a \<le> a + r * (b - a)" "a + r * (b - a) \<le> b"
proof -
  from assms show "a \<le> a + r * (b - a)" by simp
  from assms have "r * (b - a) \<le> 1 * (b - a)"
    by (intro mult_right_mono) simp_all
  then show "a + r * (b - a) \<le> b" by simp
qed

lemma spawnOnce_wellFormed:
  assumes "unitDraws rand" "wellFormed g"
  shows "wellFormed (spawnOnce rand cw g)"
proof -
  let ?k = "snd (Obstacle rand (Suc (draws g)) (cw + 50) (pickType (rand (draws g))))"
  from assms(1) have r: "0 \<le> rand ?k" "rand ?k < 1"
    by (simp_all add: unitDraws_def)
  from assms(2) have ab: "baseMinSpawnTime g \<le> baseMaxSpawnTime g"
    by (simp add: wellFormed_def)
  from interval_in_range [OF r ab] assms(2) show ?thesis
    by (simp add: spawnOnce_eq wellFormed_def)
qed

lemma spawnOnce_measure:
  assumes "wellFormed g" "\<not> spawnTimer g < nextSpawnInterval g"
    "nat \<lfloor>spawnTimer g / baseMinSpawnTime g\<rfloor> \<le> Suc k"
  shows "nat \<lfloor>spawnTimer (spawnOnce rand cw g) / baseMinSpawnTime (spawnOnce rand cw g)\<rfloor> \<le> k"
proof -
  let ?g1 = "spawnOnce rand cw g"
  from assms(1) have b: "0 < baseMinSpawnTime g" "baseMinSpawnTime g \<le> nextSpawnInterval g"
    by (simp_all add: wellFormed_def)
  have t1: "spawnTimer ?g1 = spawnTimer g - nextSpawnInterval g"
    and m1: "baseMinSpawnTime ?g1 = baseMinSpawnTime g"
    by (simp_all add: spawnOnce_eq)
  have "spawnTimer ?g1 / baseMinSpawnTime g \<le> spawnTimer g / baseMinSpawnTime g - 1"
    using b by (simp add: t1 field_simps)
  then have "\<lfloor>spawnTimer ?g1 / baseMinSpawnTime g\<rfloor> \<le> \<lfloor>spawnTimer g / baseMinSpawnTime g\<rfloor> - 1"
    by (metis floor_diff_one floor_mono)
  moreover have "1 \<le> spawnTimer g / baseMinSpawnTime g"
    using b assms(2) by (simp add: field_simps)
  then have "1 \<le> \<lfloor>spawnTimer g / baseMinSpawnTime g\<rfloor>" by linarith
  ultimately show ?thesis
    using assms(3) by (simp add: m1)
qed

lemma spawnLoop_spec_aux:
  assumes "unitDraws rand"
  shows "wellFormed g \<Longrightarrow> nat \<lfloor>spawnTimer g / baseMinSpawnTime g\<rfloor> \<le> k \<Longrightarrow>
     \<exists>g' ivs news. spawnLoop rand cw g = Some g'
       \<and> g' = g\<lparr>obstacles := obstacles g @ news, spawnTimer := spawnTimer g',
                 nextSpawnInterval := nextSpawnInterval g', draws := draws g'\<rparr>
       \<and> length news = length ivs
       \<and> spawnTimer g = sum_list ivs + spawnTimer g'
       \<and> (\<forall>iv \<in> set ivs. baseMinSpawnTime g \<le> iv \<and> iv \<le> baseMaxSpawnTime g)
       \<and> (\<forall>ob \<in> set news. o_x ob = cw + 50)
       \<and> (ivs \<noteq> [] \<longrightarrow> hd ivs = nextSpawnInterval g)
       \<and> (ivs = [] \<longleftrightarrow> spawnTimer g < nextSpawnInterval g)
       \<and> spawnTimer g' < nextSpawnInterval g'
       \<and> draws g \<le> draws g'
       \<and> wellFormed g'"
proof (induction k arbitrary: g)
  case 0
  then have "\<lfloor>spawnTimer g / baseMinSpawnTime g\<rfloor> \<le> 0" by simp
  then have "spawnTimer g / baseMinSpawnTime g < 1" by linarith
  with 0(1) have lt: "spawnTimer g < nextSpawnInterval g"
    by (simp add: wellFormed_def field_simps)
  then have "spawnLoop rand cw g = Some g"
    by (subst spawnLoop.simps) simp
  with lt 0(1) show ?case
    by (intro exI [of _ g] exI [of _ "[]"]) simp
next
  case (Suc k)
  show ?case
  proof (cases "spawnTimer g < nextSpawnInterval g")
    case True
    then have "spawnLoop rand cw g = Some g"
      by (subst spawnLoop.simps) simp
    with True Suc.prems(1) show ?thesis
      by (intro exI [of _ g] exI [of _ "[]"]) simp
  next
    case False
    let ?g1 = "spawnOnce rand cw g"
    let ?ob = "fst (Obstacle rand (Suc (draws g)) (cw + 50) (pickType (rand (draws g))))"
    have wf1: "wellFormed ?g1"
      by (rule spawnOnce_wellFormed [OF assms Suc.prems(1)])
    from Suc.prems(1) have b: "0 < baseMinSpawnTime g"
      "baseMinSpawnTime g \<le> nextSpawnInterval g" "nextSpawnInterval g \<le> baseMaxSpawnTime g"
      by (simp_all add: wellFormed_def)
    have t1: "spawnTimer ?g1 = spawnTimer g - nextSpawnInterval g"
      and m1: "baseMinSpawnTime ?g1 = baseMinSpawnTime g"
      and x1: "baseMaxSpawnTime ?g1 = baseMaxSpawnTime g"
      and o1: "obstacles ?g1 = obstacles g @ [?ob]"
      and d1: "draws g \<le> draws ?g1"
      by (simp_all add: spawnOnce_eq Obstacle_def)
    have "nat \<lfloor>spawnTimer ?g1 / baseMinSpawnTime ?g1\<rfloor> \<le> k"
      by (rule spawnOnce_measure [OF Suc.prems(1) False Suc.prems(2)])
    from Suc.IH [OF wf1 this] obtain g' ivs news where
      l: "spawnLoop rand cw ?g1 = Some g'"
      and f: "g' = ?g1\<lparr>obstacles := obstacles ?g1 @ news, spawnTimer := spawnTimer g',
                 nextSpawnInterval := nextSpawnInterval g', draws := draws g'\<rparr>"
      and n: "length news = length ivs"
      and s: "spawnTimer ?g1 = sum_list ivs + spawnTimer g'"
      and r: "\<forall>iv \<in> set ivs. baseMinSpawnTime ?g1 \<le> iv \<and> iv \<le> baseMaxSpawnTime ?g1"
      and x: "\<forall>ob \<in> set news. o_x ob = cw + 50"
      and e: "spawnTimer g' < nextSpawnInterval g'"
      and d: "draws ?g1 \<le> draws g'"
      and w: "wellFormed g'"
      by blast
    have l': "spawnLoop rand cw g = Some g'"
      using False l by (subst spawnLoop.simps) simp
    have f': "g' = g\<lparr>obstacles := obstacles g @ (?ob # news), spawnTimer := spawnTimer g',
                 nextSpawnInterval := nextSpawnInterval g', draws := draws g'\<rparr>"
      by (subst f) (simp add: spawnOnce_eq)
    have ox: "o_x ?ob = cw + 50"
      by (simp add: Obstacle_def)
    show ?thesis
      using l' f' n s r x e d w d1 b False ox
      by (intro exI [of _ g'] exI [of _ "nextSpawnInterval g # ivs"] exI [of _ "?ob # news"])
        (simp add: t1 m1 x1)
  qed
qed

lemma spawnLoop_spec:
  assumes "unitDraws rand" "wellFormed g"
  shows "\<exists>g' ivs news. spawnLoop rand cw g = Some g'
       \<and> g' = g\<lparr>obstacles := obstacles g @ news, spawnTimer := spawnTimer g',
                 nextSpawnInterval := nextSpawnInterval g', draws := draws g'\<rparr>
       \<and> length news = length ivs
       \<and> spawnTimer g = sum_list ivs + spawnTimer g'
       \<and> (\<forall>iv \<in> set ivs. baseMinSpawnTime g \<le> iv \<and> iv \<le> baseMaxSpawnTime g)
       \<and> (\<forall>ob \<in> set news. o_x ob = cw + 50)
       \<and> (ivs \<noteq> [] \<longrightarrow> hd ivs = nextSpawnInterval g)
       \<and> (ivs = [] \<longleftrightarrow> spawnTimer g < nextSpawnInterval g)
       \<and> spawnTimer g' < nextSpawnInterval g'
       \<and> draws g \<le> draws g'
       \<and> wellFormed g'"
  by (rule spawnLoop_spec_aux [OF assms(1) assms(2) order_refl])

subsection \<open>The loop over the players\<close>

lemma updatePlayers_length:
  "length (fst (updatePlayers rand sp obs dt ps n)) = length ps"
  by (induction ps arbitrary: n) (simp_all add: split_def Let_def)

lemma updatePlayers_count:
  "snd (snd (updatePlayers rand sp obs dt ps n))
     = length (filter out (fst (updatePlayers rand sp obs dt ps n)))"
  by (induction ps arbitrary: n) (simp_all add: split_def Let_def)

lemma updatePlayers_nth:
  "i < length ps \<Longrightarrow>
   \<exists>m. fst (updatePlayers rand sp obs dt ps n) ! i
     = (if out (ps ! i) then ps ! i else fst (updatePlayer rand sp obs dt (ps ! i) m))"
proof (induction ps arbitrary: n i)
  case Nil
  then show ?case by simp
next
  case (Cons p ps)
  show ?case
  proof (cases i)
    case 0
    then show ?thesis by (auto simp: split_def Let_def)
  next
    case (Suc j)
    with Cons.prems have "j < length ps" by simp
    from Cons.IH [OF this, of n]
      Cons.IH [OF this, of "snd (updatePlayer rand sp obs dt p n)"] Suc
    show ?thesis
      by (auto simp: split_def Let_def split: if_splits)
  qed
qed

subsection \<open>The tick as a whole\<close>

text \<open>
  \<open>update_summary\<close>: a tick of a running, well-formed game returns, and what it returns.
\<close>

lemma update_phases:
  assumes "\<not> gameOver g" "wellFormed g" "unitDraws rand"
  shows "\<exists>g3 ivs news ls.
     update rand cw ts g
       = Some (let ps = fst (updatePlayers rand (speed g3) (obstacles g3) (frameDelta g ts)
                               (players g) (draws g3));
                   g4 = g3\<lparr>players := ps,
                          draws := fst (snd (updatePlayers rand (speed g3) (obstacles g3)
                                     (frameDelta g ts) (players g) (draws g3)))\<rparr>
               in if laneCount g \<le> length (filter out ps) then endGame g4 else g4)
     \<and> g3 = (rampDifficulty (g\<lparr>lastTime := Some ts\<rparr>) (frameDelta g ts))
             \<lparr>bgLanes := ls,
               obstacles := cull (map (\<lambda>ob. ob\<lparr>o_x := o_x ob
                    - speed (rampDifficulty (g\<lparr>lastTime := Some ts\<rparr>) (frameDelta g ts))
                      * frameDelta g ts\<rparr>) (obstacles g)) @ news,
               spawnTimer := spawnTimer g3, nextSpawnInterval := nextSpawnInterval g3,
               draws := draws g3\<rparr>
     \<and> length news = length ivs
     \<and> spawnTimer g + frameDelta g ts = sum_list ivs + spawnTimer g3
     \<and> (\<forall>iv \<in> set ivs. baseMinSpawnTime g \<le> iv \<and> iv \<le> baseMaxSpawnTime g)
     \<and> (\<forall>ob \<in> set news. o_x ob = cw + 50)
     \<and> (ivs \<noteq> [] \<longrightarrow> hd ivs = nextSpawnInterval g)
     \<and> (ivs = [] \<longleftrightarrow> spawnTimer g + frameDelta g ts < nextSpawnInterval g)
     \<and> spawnTimer g3 < nextSpawnInterval g3
     \<and> wellFormed g3"
proof -
  let ?dt = "frameDelta g ts"
  let ?g1 = "rampDifficulty (g\<lparr>lastTime := Some ts\<rparr>) ?dt"
  have g1: "bgPatternWidth ?g1 = bgPatternWidth g" "wellFormed ?g1"
    "obstacles ?g1 = obstacles g" "spawnTimer ?g1 = spawnTimer g"
    "players ?g1 = players g" "laneCount ?g1 = laneCount g"
    "baseMinSpawnTime ?g1 = baseMinSpawnTime g" "baseMaxSpawnTime ?g1 = baseMaxSpawnTime g"
    "nextSpawnInterval ?g1 = nextSpawnInterval g"
    using assms(2) by (simp_all add: rampDifficulty_def Let_def wellFormed_def)
  from scrollBackground_total [of ?g1 rand ?dt] assms(2) g1(1) obtain ls n where
    g2: "scrollBackground rand ?g1 ?dt = Some (?g1\<lparr>bgLanes := ls, draws := n\<rparr>)"
    by (auto simp: wellFormed_def)
  let ?g2 = "?g1\<lparr>bgLanes := ls, draws := n\<rparr>"
  let ?g2' = "(moveObstacles ?g2 ?dt)\<lparr>spawnTimer := spawnTimer g + ?dt\<rparr>"
  have wf2: "wellFormed ?g2'"
    using g1(2) by (simp add: wellFormed_def moveObstacles_def)
  from spawnLoop_spec [OF assms(3) wf2, of cw] obtain g3 ivs news where
    l: "spawnLoop rand cw ?g2' = Some g3"
    and f: "g3 = ?g2'\<lparr>obstacles := obstacles ?g2' @ news, spawnTimer := spawnTimer g3,
                 nextSpawnInterval := nextSpawnInterval g3, draws := draws g3\<rparr>"
    and r: "length news = length ivs"
       "spawnTimer ?g2' = sum_list ivs + spawnTimer g3"
       "\<forall>iv \<in> set ivs. baseMinSpawnTime ?g2' \<le> iv \<and> iv \<le> baseMaxSpawnTime ?g2'"
       "\<forall>ob \<in> set news. o_x ob = cw + 50"
       "ivs \<noteq> [] \<longrightarrow> hd ivs = nextSpawnInterval ?g2'"
       "ivs = [] \<longleftrightarrow> spawnTimer ?g2' < nextSpawnInterval ?g2'"
       "spawnTimer g3 < nextSpawnInterval g3"
       "wellFormed g3"
    by blast
  have sd: "spawnDue rand cw (moveObstacles ?g2 ?dt) ?dt = Some g3"
    using l by (simp add: spawnDue_def moveObstacles_def g1)
  have p3: "players g3 = players g" "laneCount g3 = laneCount g"
    by (subst f, simp add: moveObstacles_def g1)+
  have u: "update rand cw ts g
       = Some (let ps = fst (updatePlayers rand (speed g3) (obstacles g3) ?dt
                               (players g) (draws g3));
                   g4 = g3\<lparr>players := ps,
                          draws := fst (snd (updatePlayers rand (speed g3) (obstacles g3)
                                     ?dt (players g) (draws g3)))\<rparr>
               in if laneCount g \<le> length (filter out ps) then endGame g4 else g4)"
    using assms(1) g2 sd
    by (simp add: update_def Let_def split_def p3 updatePlayers_count)
  have f': "g3 = ?g1\<lparr>bgLanes := ls,
               obstacles := cull (map (\<lambda>ob. ob\<lparr>o_x := o_x ob - speed ?g1 * ?dt\<rparr>) (obstacles g)) @ news,
               spawnTimer := spawnTimer g3, nextSpawnInterval := nextSpawnInterval g3,
               draws := draws g3\<rparr>"
    by (subst f) (simp add: moveObstacles_def g1)
  show ?thesis
    using u f' r
    by (intro exI [of _ g3] exI [of _ ivs] exI [of _ news] exI [of _ ls])
      (simp add: moveObstacles_def g1)
qed

lemma update_summary:
  assumes "\<not> gameOver g" "wellFormed g" "unitDraws rand"
  shows "\<exists>g' m ivs news.
     update rand cw ts g = Some g'
     \<and> elapsedTime g' = elapsedTime g + frameDelta g ts
     \<and> lastTime g' = Some ts
     \<and> speed g' = speed (rampDifficulty g (frameDelta g ts))
     \<and> nextSpeedIncreaseAt g' = nextSpeedIncreaseAt (rampDifficulty g (frameDelta g ts))
     \<and> speedIncreaseFactor g' = speedIncreaseFactor g
     \<and> laneCount g' = laneCount g
     \<and> baseMinSpawnTime g' = baseMinSpawnTime g
     \<and> baseMaxSpawnTime g' = baseMaxSpawnTime g
     \<and> wellFormed g'
     \<and> players g' = fst (updatePlayers rand (speed g') (obstacles g') (frameDelta g ts) (players g) m)
     \<and> (gameOver g' \<longleftrightarrow> laneCount g \<le> length (filter out (players g')))
     \<and> winnerIndex g' = (if gameOver g' then Some (findWinner (players g') 0 None (- 1))
                          else winnerIndex g)
     \<and> obstacles g' = cull (map (\<lambda>ob. ob\<lparr>o_x := o_x ob - speed g' * frameDelta g ts\<rparr>) (obstacles g)) @ news
     \<and> length news = length ivs
     \<and> spawnTimer g + frameDelta g ts = sum_list ivs + spawnTimer g'
     \<and> (\<forall>iv \<in> set ivs. baseMinSpawnTime g \<le> iv \<and> iv \<le> baseMaxSpawnTime g)
     \<and> (\<forall>ob \<in> set news. o_x ob = cw + 50)
     \<and> (ivs \<noteq> [] \<longrightarrow> hd ivs = nextSpawnInterval g)
     \<and> (ivs = [] \<longleftrightarrow> spawnTimer g + frameDelta g ts < nextSpawnInterval g)
     \<and> spawnTimer g' < nextSpawnInterval g'"
proof -
  let ?dt = "frameDelta g ts"
  let ?g1 = "rampDifficulty (g\<lparr>lastTime := Some ts\<rparr>) ?dt"
  from update_phases [OF assms, of cw ts] obtain g3 ivs news ls where
    u: "update rand cw ts g
       = Some (let ps = fst (updatePlayers rand (speed g3) (obstacles g3) ?dt
                               (players g) (draws g3));
                   g4 = g3\<lparr>players := ps,
                          draws := fst (snd (updatePlayers rand (speed g3) (obstacles g3)
                                     ?dt (players g) (draws g3)))\<rparr>
               in if laneCount g \<le> length (filter out ps) then endGame g4 else g4)"
    and f: "g3 = ?g1\<lparr>bgLanes := ls,
               obstacles := cull (map (\<lambda>ob. ob\<lparr>o_x := o_x ob - speed ?g1 * ?dt\<rparr>) (obstacles g)) @ news,
               spawnTimer := spawnTimer g3, nextSpawnInterval := nextSpawnInterval g3,
               draws := draws g3\<rparr>"
    and r: "length news = length ivs"
       "spawnTimer g + ?dt = sum_list ivs + spawnTimer g3"
       "\<forall>iv \<in> set ivs. baseMinSpawnTime g \<le> iv \<and> iv \<le> baseMaxSpawnTime g"
       "\<forall>ob \<in> set news. o_x ob = cw + 50"
       "ivs \<noteq> [] \<longrightarrow> hd ivs = nextSpawnInterval g"
       "ivs = [] \<longleftrightarrow> spawnTimer g + ?dt < nextSpawnInterval g"
       "spawnTimer g3 < nextSpawnInterval g3"
       "wellFormed g3"
    by blast
  let ?ps = "fst (updatePlayers rand (speed g3) (obstacles g3) ?dt (players g) (draws g3))"
  let ?g4 = "g3\<lparr>players := ?ps,
                draws := fst (snd (updatePlayers rand (speed g3) (obstacles g3)
                                     ?dt (players g) (draws g3)))\<rparr>"
  let ?g' = "if laneCount g \<le> length (filter out ?ps) then endGame ?g4 else ?g4"
  have g3: "elapsedTime g3 = elapsedTime g + ?dt" "lastTime g3 = Some ts"
    "speed g3 = speed (rampDifficulty g ?dt)"
    "nextSpeedIncreaseAt g3 = nextSpeedIncreaseAt (rampDifficulty g ?dt)"
    "speedIncreaseFactor g3 = speedIncreaseFactor g" "laneCount g3 = laneCount g"
    "baseMinSpawnTime g3 = baseMinSpawnTime g" "baseMaxSpawnTime g3 = baseMaxSpawnTime g"
    "gameOver g3 = gameOver g" "winnerIndex g3 = winnerIndex g"
    "obstacles g3 = cull (map (\<lambda>ob. ob\<lparr>o_x := o_x ob - speed (rampDifficulty g ?dt) * ?dt\<rparr>) (obstacles g)) @ news"
    by (subst f, simp add: rampDifficulty_def Let_def)+
  have u': "update rand cw ts g = Some ?g'"
    using u by (simp add: Let_def)
  have wf: "wellFormed ?g'"
    using r(8) by (simp add: wellFormed_def endGame_def)
  show ?thesis
    using u' wf g3 r assms(1)
    by (intro exI [of _ ?g'] exI [of _ "draws g3"] exI [of _ ivs] exI [of _ news])
      (simp add: endGame_def)
qed

subsection \<open>The game of the constructor\<close>

lemma fields_start_Game:
  "speed (start rand (Game rand n0 cw nms k)) = 400"
  "elapsedTime (start rand (Game rand n0 cw nms k)) = 0"
  "nextSpeedIncreaseAt (start rand (Game rand n0 cw nms k)) = 5"
  "speedIncreaseFactor (start rand (Game rand n0 cw nms k)) = 1.3"
  "gameOver (start rand (Game rand n0 cw nms k)) = False"
  "lastTime (start rand (Game rand n0 cw nms k)) = None"
  "winnerIndex (start rand (Game rand n0 cw nms k)) = None"
  "laneCount (start rand (Game rand n0 cw nms k)) = 3"
  "baseMinSpawnTime (start rand (Game rand n0 cw nms k)) = 3 / 4"
  "baseMaxSpawnTime (start rand (Game rand n0 cw nms k)) = 2"
  "bgPatternWidth (start rand (Game rand n0 cw nms k)) = 300"
  "bgSpeedFactor (start rand (Game rand n0 cw nms k)) = 0.6"
  "spawnTimer (start rand (Game rand n0 cw nms k)) = 0"
  "obstacles (start rand (Game rand n0 cw nms k)) = []"
  by (simp_all add: start_def Game_def randomSpawnInterval_def initializePlayers_def
      initBackgroundRadii_def Let_def split_def)

lemma wellFormed_start_Game:
  assumes "unitDraws rand"
  shows "wellFormed (start rand (Game rand n0 cw nms k))"
proof -
  let ?g = "Game rand n0 cw nms k"
  have n: "nextSpawnInterval (start rand ?g) = 3 / 4 + rand (draws ?g) * (2 - 3 / 4)"
    by (simp add: start_def Game_def randomSpawnInterval_def initializePlayers_def
        initBackgroundRadii_def Let_def split_def)
  from assms have "0 \<le> rand (draws ?g)" "rand (draws ?g) < 1"
    by (simp_all add: unitDraws_def)
  from interval_in_range [OF this, of "3 / 4" 2] show ?thesis
    by (simp add: wellFormed_def fields_start_Game n)
qed

subsection \<open>The winner\<close>

text \<open>
  \<open>findWinner\<close> returns the first index of a greatest \<open>time\<close> that beats \<open>best\<close>, or \<open>w\<close>
  when no player beats \<open>best\<close>.
\<close>

lemma findWinner_spec:
  "(if \<exists>p \<in> set ps. (case best of None \<Rightarrow> True | Some b \<Rightarrow> time p > b)
    then \<exists>i < length ps. findWinner ps idx best w = int (idx + i)
           \<and> (case best of None \<Rightarrow> True | Some b \<Rightarrow> time (ps ! i) > b)
           \<and> (\<forall>j < length ps. time (ps ! j) \<le> time (ps ! i))
           \<and> (\<forall>j < i. time (ps ! j) < time (ps ! i))
    else findWinner ps idx best w = w)"
proof (induction ps arbitrary: idx best w)
  case Nil
  then show ?case by simp
next
  case (Cons p ps)
  show ?case
  proof (cases "case best of None \<Rightarrow> True | Some b \<Rightarrow> time p > b")
    case True
    note beats = this
    show ?thesis
    proof (cases "\<exists>q \<in> set ps. time q > time p")
      case False
      with Cons.IH [of "Some (time p)" "Suc idx" "int idx"]
      have "findWinner (p # ps) idx best w = int idx"
        using beats by simp
      moreover from False have "\<forall>j < length (p # ps). time ((p # ps) ! j) \<le> time p"
        by (auto simp: nth_Cons split: nat.split) (meson not_le nth_mem)
      ultimately show ?thesis
        using beats by (auto intro!: exI [of _ 0] split: option.splits)
    next
      case True
      with Cons.IH [of "Some (time p)" "Suc idx" "int idx"] obtain i where
        i: "i < length ps" "findWinner ps (Suc idx) (Some (time p)) (int idx) = int (Suc idx + i)"
          "time (ps ! i) > time p" "\<forall>j < length ps. time (ps ! j) \<le> time (ps ! i)"
          "\<forall>j < i. time (ps ! j) < time (ps ! i)"
        by auto
      have a: "findWinner (p # ps) idx best w = int (idx + Suc i)"
        using beats i(2) by simp
      have b: "case best of None \<Rightarrow> True | Some b \<Rightarrow> time ((p # ps) ! Suc i) > b"
        using beats i(3) by (auto split: option.splits)
      have c: "\<forall>j < length (p # ps). time ((p # ps) ! j) \<le> time ((p # ps) ! Suc i)"
        using i(3,4) by (auto simp: nth_Cons split: nat.split)
      have d: "\<forall>j < Suc i. time ((p # ps) ! j) < time ((p # ps) ! Suc i)"
        using i(3,5) by (auto simp: nth_Cons split: nat.split)
      from a b c d i(1) beats show ?thesis
        by (auto intro!: exI [of _ "Suc i"] split: option.splits)
    qed
  next
    case False
    then obtain b where best: "best = Some b" and le: "time p \<le> b"
      by (cases best) auto
    show ?thesis
    proof (cases "\<exists>q \<in> set ps. time q > b")
      case False
      with Cons.IH [of best "Suc idx" w] best le show ?thesis
        by auto
    next
      case True
      with Cons.IH [of best "Suc idx" w] best obtain i where
        i: "i < length ps" "findWinner ps (Suc idx) best w = int (Suc idx + i)"
          "time (ps ! i) > b" "\<forall>j < length ps. time (ps ! j) \<le> time (ps ! i)"
          "\<forall>j < i. time (ps ! j) < time (ps ! i)"
        by auto
      have a: "findWinner (p # ps) idx best w = int (idx + Suc i)"
        using best le i(2) by simp
      have c: "\<forall>j < length (p # ps). time ((p # ps) ! j) \<le> time ((p # ps) ! Suc i)"
        using i(3,4) le by (auto simp: nth_Cons split: nat.split)
      have d: "\<forall>j < Suc i. time ((p # ps) ! j) < time ((p # ps) ! Suc i)"
        using i(3,5) le by (auto simp: nth_Cons split: nat.split)
      from a c d i(1,3) best True show ?thesis
        by (auto intro!: exI [of _ "Suc i"] split: option.splits)
    qed
  qed
qed

lemma findWinner_first_max:
  assumes "ps \<noteq> []"
  shows "\<exists>i < length ps. findWinner ps 0 None (- 1) = int i
           \<and> (\<forall>j < length ps. time (ps ! j) \<le> time (ps ! i))
           \<and> (\<forall>j < i. time (ps ! j) < time (ps ! i))"
proof -
  from assms have "\<exists>p \<in> set ps. (case None :: real option of None \<Rightarrow> True | Some b \<Rightarrow> time p > b)"
    by (cases ps) auto
  with findWinner_spec [of ps None 0 "- 1"] show ?thesis
    by auto
qed

subsection \<open>Clock and speed after a tick\<close>

lemma frameDelta_nonneg:
  "lastTime g = Some t \<Longrightarrow> t \<le> ts \<Longrightarrow> 0 \<le> frameDelta g ts"
  by (simp add: frameDelta_def)

lemma update_ramp:
  assumes "\<not> gameOver g" "wellFormed g" "unitDraws rand"
  shows "\<exists>g'. update rand cw ts g = Some g'
     \<and> elapsedTime g' = elapsedTime g + frameDelta g ts
     \<and> lastTime g' = Some ts
     \<and> speed g' = (if elapsedTime g + frameDelta g ts \<ge> nextSpeedIncreaseAt g
                    then speed g * speedIncreaseFactor g else speed g)
     \<and> nextSpeedIncreaseAt g' = (if elapsedTime g + frameDelta g ts \<ge> nextSpeedIncreaseAt g
                    then nextSpeedIncreaseAt g + 5 else nextSpeedIncreaseAt g)
     \<and> speedIncreaseFactor g' = speedIncreaseFactor g
     \<and> wellFormed g'"
  using update_summary [OF assms, of cw ts]
  by (auto simp: rampDifficulty_def Let_def)

lemma update_clock:
  assumes "\<not> gameOver g" "wellFormed g" "unitDraws rand"
  shows "\<exists>g'. update rand cw ts g = Some g'
     \<and> elapsedTime g' = elapsedTime g + frameDelta g ts
     \<and> lastTime g' = Some ts
     \<and> length (players g') = length (players g)
     \<and> (\<forall>i < length (players g). \<not> out (players g ! i) \<longrightarrow>
           time (players g' ! i) = time (players g ! i) + frameDelta g ts)"
proof -
  from update_summary [OF assms, of cw ts] obtain g' m where
    u: "update rand cw ts g = Some g'"
    and e: "elapsedTime g' = elapsedTime g + frameDelta g ts" "lastTime g' = Some ts"
    and p: "players g' = fst (updatePlayers rand (speed g') (obstacles g') (frameDelta g ts) (players g) m)"
    by blast
  have l: "length (players g') = length (players g)"
    by (simp add: p updatePlayers_length)
  have "time (players g' ! i) = time (players g ! i) + frameDelta g ts"
    if "i < length (players g)" "\<not> out (players g ! i)" for i
    using updatePlayers_nth [OF that(1), of rand "speed g'" "obstacles g'" "frameDelta g ts" m] that(2)
    by (auto simp: p updatePlayer_time)
  with u e l show ?thesis by blast
qed

subsection \<open>Invariants of the reachable games\<close>

lemma unitDraws_examples: "unitDraws halfDraws" "unitDraws zeroDraws"
  by (simp_all add: unitDraws_def)

lemma lifeInv_Player: "lifeInv (Player nm l b er)"
  by (simp add: lifeInv_def Player_def)

lemma lifeInv_addHumans:
  "\<forall>p \<in> set ps. lifeInv p \<Longrightarrow> \<forall>p \<in> set (addHumans i nms ps). lifeInv p"
proof (induction nms arbitrary: i ps)
  case Nil
  then show ?case by simp
next
  case (Cons a nms)
  from Cons.prems have "\<forall>p \<in> set (ps @ [Player a i False 0.1]). lifeInv p"
    by (simp add: lifeInv_Player)
  from Cons.IH [OF this] show ?case by simp
qed

lemma lifeInv_addBots:
  "\<forall>p \<in> set ps. lifeInv p \<Longrightarrow> \<forall>p \<in> set (addBots b k ps). lifeInv p"
proof (induction k arbitrary: b ps)
  case 0
  then show ?case by simp
next
  case (Suc k)
  from Suc.prems
  have "\<forall>p \<in> set (ps @ [Player (''Bot '' @ showNat (b + 1)) (length ps) True 0.05]). lifeInv p"
    by (simp add: lifeInv_Player)
  from Suc.IH [OF this] show ?case by simp
qed

lemma lifeInv_fillLanes:
  "\<forall>p \<in> set ps. lifeInv p \<Longrightarrow> \<forall>p \<in> set (fillLanes lc ps). lifeInv p"
proof (induction lc ps rule: fillLanes.induct)
  case (1 lc ps)
  show ?case
  proof (cases "length ps < lc")
    case True
    from 1(2)
    have "\<forall>p \<in> set (ps @ [Player (''Bot '' @ showNat (length ps + 1)) (length ps) True 1]). lifeInv p"
      by (simp add: lifeInv_Player)
    from 1(1) [OF True this] True show ?thesis
      by (subst fillLanes.simps) simp
  next
    case False
    with 1(2) show ?thesis
      by (subst fillLanes.simps) simp
  qed
qed


lemma lifeInv_start_Game:
  "\<forall>p \<in> set (players (start rand (Game rand n0 cw nms k))). lifeInv p"
proof -
  have "players (start rand (Game rand n0 cw nms k))
      = fillLanes 3 (addBots 0 k (addHumans 0 nms []))"
    by (simp add: start_def Game_def randomSpawnInterval_def initializePlayers_def
        initBackgroundRadii_def Let_def split_def)
  moreover have "\<forall>p \<in> set (fillLanes 3 (addBots 0 k (addHumans 0 nms []))). lifeInv p"
    by (intro lifeInv_fillLanes lifeInv_addBots lifeInv_addHumans) simp
  ultimately show ?thesis by simp
qed

lemma lifeInv_jump: "lifeInv (jump p) = lifeInv p"
  by (simp add: lifeInv_def)

lemma updatePlayer_cases:
  "fst (updatePlayer rand sp obs dt p n) = beforeCollision rand sp obs dt p n
   \<or> (\<not> invulnerable (beforeCollision rand sp obs dt p n)
       \<and> p_y (beforeCollision rand sp obs dt p n) \<ge> 0
       \<and> (\<exists>ob \<in> set obs. overlaps ob (beforeCollision rand sp obs dt p n))
       \<and> fst (updatePlayer rand sp obs dt p n) = hit (beforeCollision rand sp obs dt p n))"
  by (simp add: updatePlayer_eq collide_cases)

lemma lifeInv_updatePlayer:
  assumes "lifeInv p" "\<not> out p"
  shows "lifeInv (fst (updatePlayer rand sp obs dt p n))"
proof -
  let ?q = "beforeCollision rand sp obs dt p n"
  have q: "lifeInv ?q" "\<not> out ?q" "lives ?q = lives p"
    using assms by (simp_all add: lifeInv_def)
  then have "lifeInv (hit ?q)"
    by (auto simp: lifeInv_def)
  with q(1) updatePlayer_cases [of rand sp obs dt p n] show ?thesis
    by auto
qed

lemma lifeInv_updatePlayers:
  "\<forall>p \<in> set ps. lifeInv p \<Longrightarrow> \<forall>p \<in> set (fst (updatePlayers rand sp obs dt ps n)). lifeInv p"
proof (induction ps arbitrary: n)
  case Nil
  then show ?case by simp
next
  case (Cons p ps)
  from Cons.prems have p: "lifeInv p" and ps: "\<forall>q \<in> set ps. lifeInv q"
    by simp_all
  have "lifeInv (fst (if \<not> out p then updatePlayer rand sp obs dt p n else (p, n)))"
    using p lifeInv_updatePlayer [OF p] by simp
  with Cons.IH [OF ps] show ?case
    by (simp add: split_def Let_def)
qed


lemma update_players:
  assumes "\<not> gameOver g" "wellFormed g" "unitDraws rand"
  shows "\<exists>g' m. update rand cw ts g = Some g' \<and> wellFormed g'
     \<and> players g' = fst (updatePlayers rand (speed g') (obstacles g') (frameDelta g ts) (players g) m)"
  using update_summary [OF assms, of cw ts] by blast

lemma reachable_inv:
  "reachable g \<Longrightarrow> wellFormed g \<and> (\<forall>p \<in> set (players g). lifeInv p)"
proof (induction rule: reachable.induct)
  case (started rand n0 cw nms k)
  then show ?case
    by (simp add: wellFormed_start_Game lifeInv_start_Game)
next
  case (ticked g rand cw ts g')
  show ?case
  proof (cases "gameOver g")
    case True
    with ticked show ?thesis by (simp add: update_def)
  next
    case False
    from ticked.IH have wf: "wellFormed g" and inv: "\<forall>p \<in> set (players g). lifeInv p"
      by simp_all
    from update_players [OF False wf ticked.hyps(2), of cw ts] obtain g2 m where
      g2: "update rand cw ts g = Some g2" "wellFormed g2"
      "players g2 = fst (updatePlayers rand (speed g2) (obstacles g2) (frameDelta g ts) (players g) m)"
      by blast
    from g2(1) ticked.hyps(3) have "g2 = g'" by simp
    with g2(2,3) lifeInv_updatePlayers [OF inv] show ?thesis
      by simp
  qed
next
  case (jumped g i)
  have "set ((players g)[i := jump (players g ! i)]) \<subseteq> insert (jump (players g ! i)) (set (players g))"
    by (rule set_update_subset_insert)
  with jumped.IH show ?case
    by (auto simp: jumpPlayer_def wellFormed_def lifeInv_jump)
next
  case (resized g rand cw)
  then show ?case
    by (simp add: initBackgroundRadii_def wellFormed_def Let_def split_def)
qed

lemma reachable_frame:
  assumes "reachable g" "unitDraws rand"
  shows "update rand cw ts g = Some (frame rand cw ts g)" "reachable (frame rand cw ts g)"
proof -
  from reachable_inv [OF assms(1)] have wf: "wellFormed g" by simp
  have "\<exists>g'. update rand cw ts g = Some g'"
  proof (cases "gameOver g")
    case True
    then show ?thesis by (simp add: update_def)
  next
    case False
    from update_players [OF False wf assms(2), of cw ts] show ?thesis by blast
  qed
  then show u: "update rand cw ts g = Some (frame rand cw ts g)" by auto
  show "reachable (frame rand cw ts g)"
    by (rule reachable.ticked [OF assms u])
qed

lemma reachable_examples:
  "reachable stalled" "reachable late" "reachable narrow" "reachable lastLife"
  by (intro reachable_frame(2) reachable.started unitDraws_examples)+

lemma wellFormed_examples:
  "wellFormed stalled" "wellFormed late" "wellFormed narrow" "wellFormed lastLife"
  using reachable_examples [THEN reachable_inv] by simp_all

lemmas tick_defs =
  update_def frameDelta_def rampDifficulty_def scrollBackground_def
  moveObstacles_def spawnDue_def wrapOffset.simps spawnLoop.simps spawnOnce_def
  spawnObstacle_def pickType_def Obstacle_def
  start_def Game_def randomSpawnInterval_def initializePlayers_def
  initBackgroundRadii_def Let_def split_def numeral_2_eq_2 numeral_3_eq_3
  fillLanes.simps showNat.simps
  updatePlayer_def updatePhysics_def Player_def belowThreshold_def jump_def
  overlaps_def hit_def endGame_def

subsection \<open>The spawn loop does not read the speed\<close>




subsection \<open>A tick whose time step is negative\<close>

text \<open>
  In a reachable game no spawn is due and every background offset is above
  \<open>- bgPatternWidth\<close>, since the two \<^verbatim>\<open>while\<close> loops of the last tick ended. A negative
  time step moves the spawn timer and the offsets away from the loop conditions, so
  in such a tick neither loop runs a single round.
\<close>

lemma reachable_spawn_pending:
  "reachable g \<Longrightarrow> spawnTimer g < nextSpawnInterval g"
proof (induction rule: reachable.induct)
  case (started rand n0 cw nms k)
  from wellFormed_start_Game [OF started, of n0 cw nms k]
  show ?case
    by (simp add: wellFormed_def fields_start_Game)
next
  case (ticked g rand cw ts g')
  show ?case
  proof (cases "gameOver g")
    case True
    with ticked show ?thesis by (simp add: update_def)
  next
    case False
    from reachable_inv [OF ticked.hyps(1)] have wf: "wellFormed g" by simp
    from update_summary [OF False wf ticked.hyps(2), of cw ts] obtain g2 where
      g2: "update rand cw ts g = Some g2" "spawnTimer g2 < nextSpawnInterval g2"
      by blast
    from g2(1) ticked.hyps(3) have "g2 = g'" by simp
    with g2(2) show ?thesis by simp
  qed
next
  case (jumped g i)
  then show ?case by (simp add: jumpPlayer_def)
next
  case (resized g rand cw)
  then show ?case by (simp add: initBackgroundRadii_def Let_def split_def)
qed

lemma update_backwards:
  assumes "reachable g" "\<not> gameOver g" "unitDraws rand" "frameDelta g ts < 0"
  shows "\<exists>g'. update rand cw ts g = Some g'
     \<and> elapsedTime g' = elapsedTime g + frameDelta g ts
     \<and> lastTime g' = Some ts
     \<and> length (players g') = length (players g)
     \<and> (\<forall>i < length (players g). \<not> out (players g ! i) \<longrightarrow>
           time (players g' ! i) = time (players g ! i) + frameDelta g ts)
     \<and> obstacles g' = cull (map (\<lambda>ob. ob\<lparr>o_x := o_x ob - speed g' * frameDelta g ts\<rparr>)
                              (obstacles g))
     \<and> spawnTimer g' = spawnTimer g + frameDelta g ts"
proof -
  from reachable_inv [OF assms(1)] have wf: "wellFormed g" by simp
  from reachable_spawn_pending [OF assms(1)] assms(4)
  have due: "spawnTimer g + frameDelta g ts < nextSpawnInterval g" by simp
  from update_summary [OF assms(2) wf assms(3), of cw ts] obtain g' ivs news where
    u: "update rand cw ts g = Some g'"
    and o: "obstacles g' = cull (map (\<lambda>ob. ob\<lparr>o_x := o_x ob - speed g' * frameDelta g ts\<rparr>)
                              (obstacles g)) @ news"
    and n: "length news = length ivs"
      "spawnTimer g + frameDelta g ts = sum_list ivs + spawnTimer g'"
      "ivs = [] \<longleftrightarrow> spawnTimer g + frameDelta g ts < nextSpawnInterval g"
    by blast
  from n(3) due have "ivs = []" by simp
  with n(1,2) o have s: "obstacles g' = cull (map (\<lambda>ob. ob\<lparr>o_x := o_x ob - speed g' * frameDelta g ts\<rparr>)
                              (obstacles g))" "spawnTimer g' = spawnTimer g + frameDelta g ts"
    by simp_all
  from update_clock [OF assms(2) wf assms(3), of cw ts] u
  have c: "elapsedTime g' = elapsedTime g + frameDelta g ts" "lastTime g' = Some ts"
    "length (players g') = length (players g)"
    "\<forall>i < length (players g). \<not> out (players g ! i) \<longrightarrow>
           time (players g' ! i) = time (players g ! i) + frameDelta g ts"
    by auto
  from u c s show ?thesis by blast
qed

lemma wrapOffset_idle:
  "\<not> off \<le> - w \<Longrightarrow> wrapOffset rand w r off radii n = Some (off, radii, n)"
  by (subst wrapOffset.simps) simp

lemma wrapOffset_post_aux:
  "0 < w \<Longrightarrow> nat \<lfloor>- off / w\<rfloor> \<le> k \<Longrightarrow>
   wrapOffset rand w r off radii n = Some (off', radii', n') \<Longrightarrow> - w < off'"
proof (induction k arbitrary: off radii n)
  case 0
  then have "\<lfloor>- off / w\<rfloor> \<le> 0" by simp
  then have "- off / w < 1" by linarith
  with \<open>0 < w\<close> have idle: "\<not> off \<le> - w" by (simp add: field_simps)
  from 0(3) wrapOffset_idle [OF idle, of rand r radii n] idle show ?case by simp
next
  case (Suc k)
  show ?case
  proof (cases "off \<le> - w")
    case False
    from Suc.prems(3) wrapOffset_idle [OF False, of rand r radii n] False show ?thesis by simp
  next
    case True
    with \<open>0 < w\<close> have ge: "1 \<le> - off / w" by (simp add: field_simps)
    have "- (off + w) / w = - off / w - 1"
      using \<open>0 < w\<close> by (simp add: field_simps)
    then have "\<lfloor>- (off + w) / w\<rfloor> = \<lfloor>- off / w\<rfloor> - 1" by simp
    moreover from ge have "1 \<le> \<lfloor>- off / w\<rfloor>" by linarith
    ultimately have m: "nat \<lfloor>- (off + w) / w\<rfloor> \<le> k"
      using Suc.prems(2) by linarith
    have "wrapOffset rand w r off radii n
        = wrapOffset rand w r (off + w) (tl radii @ [r * (0.7 + rand n * 0.8)]) (Suc n)"
      using True by (subst wrapOffset.simps) simp
    with Suc.prems(3)
    have "wrapOffset rand w r (off + w) (tl radii @ [r * (0.7 + rand n * 0.8)]) (Suc n)
        = Some (off', radii', n')" by simp
    from Suc.IH [OF \<open>0 < w\<close> m this] show ?thesis .
  qed
qed

lemma wrapOffset_post:
  "0 < w \<Longrightarrow> wrapOffset rand w r off radii n = Some (off', radii', n') \<Longrightarrow> - w < off'"
  by (rule wrapOffset_post_aux [OF _ order_refl])

lemma scrollLanes_post:
  "0 < w \<Longrightarrow> scrollLanes rand w r d ls n = Some (ls', n') \<Longrightarrow> \<forall>l \<in> set ls'. - w < fst l"
proof (induction ls arbitrary: n ls' n')
  case Nil
  then show ?case by simp
next
  case (Cons a ls)
  obtain off radii where a: "a = (off, radii)" by (cases a)
  from Cons.prems(2) obtain off1 radii1 n1 ls1 where
    w: "wrapOffset rand w r (off - d) radii n = Some (off1, radii1, n1)"
    and s: "scrollLanes rand w r d ls n1 = Some (ls1, n')"
    and e: "ls' = (off1, radii1) # ls1"
    by (auto simp: a split: option.splits)
  from wrapOffset_post [OF Cons.prems(1) w] Cons.IH [OF Cons.prems(1) s] e
  show ?case by simp
qed

lemma scrollLanes_idle:
  "d \<le> 0 \<Longrightarrow> \<forall>l \<in> set ls. - w < fst l \<Longrightarrow>
   scrollLanes rand w r d ls n = Some (map (\<lambda>(off, radii). (off - d, radii)) ls, n)"
proof (induction ls)
  case Nil
  then show ?case by simp
next
  case (Cons a ls)
  obtain off radii where a: "a = (off, radii)" by (cases a)
  from Cons.prems a have "\<not> off - d \<le> - w" by simp
  from wrapOffset_idle [OF this, of rand r radii n] Cons.IH Cons.prems
  show ?case by (simp add: a)
qed

lemma initLanes_offsets:
  "map fst (fst (initLanes rand r k ls n)) = map fst ls"
  by (induction ls arbitrary: n) (auto simp: split_def Let_def)

lemma scrollBackground_lanes:
  assumes "0 < bgPatternWidth g"
  shows "\<exists>ls n. scrollLanes rand (bgPatternWidth g) (bgBaseRadius g)
             (speed g * bgSpeedFactor g * dt) (bgLanes g) (draws g) = Some (ls, n)
          \<and> scrollBackground rand g dt = Some (g\<lparr>bgLanes := ls, draws := n\<rparr>)"
proof -
  from scrollLanes_total [OF assms] obtain ls n
    where "scrollLanes rand (bgPatternWidth g) (bgBaseRadius g)
             (speed g * bgSpeedFactor g * dt) (bgLanes g) (draws g) = Some (ls, n)"
    by (metis surj_pair)
  then show ?thesis by (auto simp: scrollBackground_def)
qed

lemma update_background:
  assumes "\<not> gameOver g" "wellFormed g" "unitDraws rand"
  shows "\<exists>g' n. update rand cw ts g = Some g'
     \<and> scrollLanes rand (bgPatternWidth g) (bgBaseRadius g)
          (speed g' * bgSpeedFactor g * frameDelta g ts) (bgLanes g) (draws g)
        = Some (bgLanes g', n)
     \<and> bgPatternWidth g' = bgPatternWidth g \<and> bgSpeedFactor g' = bgSpeedFactor g"
proof -
  let ?dt = "frameDelta g ts"
  let ?g1 = "rampDifficulty (g\<lparr>lastTime := Some ts\<rparr>) ?dt"
  have g1: "bgPatternWidth ?g1 = bgPatternWidth g" "wellFormed ?g1"
    "bgBaseRadius ?g1 = bgBaseRadius g" "bgSpeedFactor ?g1 = bgSpeedFactor g"
    "bgLanes ?g1 = bgLanes g" "draws ?g1 = draws g" "spawnTimer ?g1 = spawnTimer g"
    "players ?g1 = players g" "laneCount ?g1 = laneCount g"
    using assms(2) by (simp_all add: rampDifficulty_def Let_def wellFormed_def)
  from assms(2) have "0 < bgPatternWidth ?g1"
    by (simp add: g1 wellFormed_def)
  from scrollBackground_lanes [OF this, of rand ?dt] obtain ls n where
    sl: "scrollLanes rand (bgPatternWidth g) (bgBaseRadius g)
             (speed ?g1 * bgSpeedFactor g * ?dt) (bgLanes g) (draws g) = Some (ls, n)"
    and g2: "scrollBackground rand ?g1 ?dt = Some (?g1\<lparr>bgLanes := ls, draws := n\<rparr>)"
    unfolding g1 by blast
  let ?g2 = "?g1\<lparr>bgLanes := ls, draws := n\<rparr>"
  let ?g2' = "(moveObstacles ?g2 ?dt)\<lparr>spawnTimer := spawnTimer g + ?dt\<rparr>"
  have wf2: "wellFormed ?g2'"
    using g1(2) by (simp add: wellFormed_def moveObstacles_def)
  from spawnLoop_spec [OF assms(3) wf2, of cw] obtain g3 news where
    l: "spawnLoop rand cw ?g2' = Some g3"
    and f: "g3 = ?g2'\<lparr>obstacles := obstacles ?g2' @ news, spawnTimer := spawnTimer g3,
                 nextSpawnInterval := nextSpawnInterval g3, draws := draws g3\<rparr>"
    by blast
  have sd: "spawnDue rand cw (moveObstacles ?g2 ?dt) ?dt = Some g3"
    using l by (simp add: spawnDue_def moveObstacles_def g1)
  have p3: "bgLanes g3 = ls" "bgPatternWidth g3 = bgPatternWidth g"
    "bgSpeedFactor g3 = bgSpeedFactor g" "speed g3 = speed ?g1"
    by (subst f, simp add: moveObstacles_def g1)+
  let ?r = "updatePlayers rand (speed g3) (obstacles g3) ?dt (players g3) (draws g3)"
  let ?g4 = "g3\<lparr>players := fst ?r, draws := fst (snd ?r)\<rparr>"
  let ?g' = "if snd (snd ?r) \<ge> laneCount ?g4 then endGame ?g4 else ?g4"
  have u: "update rand cw ts g = Some ?g'"
    using assms(1) g2 sd by (simp add: update_def Let_def split_def)
  have b: "bgLanes ?g' = ls" "bgPatternWidth ?g' = bgPatternWidth g"
    "bgSpeedFactor ?g' = bgSpeedFactor g" "speed ?g' = speed ?g1"
    by (simp_all add: endGame_def p3)
  from sl b(4) have "scrollLanes rand (bgPatternWidth g) (bgBaseRadius g)
          (speed ?g' * bgSpeedFactor g * ?dt) (bgLanes g) (draws g) = Some (bgLanes ?g', n)"
    by (simp only: b(1))
  with u b(2,3) show ?thesis by blast
qed

lemma reachable_background:
  "reachable g \<Longrightarrow>
   bgPatternWidth g = 300 \<and> bgSpeedFactor g = 0.6 \<and> 0 < speed g
   \<and> speedIncreaseFactor g = 1.3 \<and> (\<forall>l \<in> set (bgLanes g). - 300 < fst l)"
proof (induction rule: reachable.induct)
  case (started rand n0 cw nms k)
  let ?g = "start rand (Game rand n0 cw nms k)"
  have "\<exists>r m d. bgLanes ?g = fst (initLanes rand r m (replicate 3 (0, [])) d)"
    by (simp add: start_def Game_def randomSpawnInterval_def initializePlayers_def
        initBackgroundRadii_def Let_def split_def) blast
  then obtain r m d where "bgLanes ?g = fst (initLanes rand r m (replicate 3 (0, [])) d)"
    by blast
  then have "map fst (bgLanes ?g) = map fst (replicate 3 (0 :: real, [] :: real list))"
    by (simp only: initLanes_offsets)
  then have "\<forall>x \<in> set (map fst (bgLanes ?g)). - 300 < x"
    by simp
  then have "\<forall>l \<in> set (bgLanes ?g). - 300 < fst l"
    by simp
  then show ?case
    by (simp add: fields_start_Game)
next
  case (ticked g rand cw ts g')
  show ?case
  proof (cases "gameOver g")
    case True
    with ticked show ?thesis by (simp add: update_def)
  next
    case False
    from reachable_inv [OF ticked.hyps(1)] have wf: "wellFormed g" by simp
    from ticked.IH have ih: "bgPatternWidth g = 300" "bgSpeedFactor g = 0.6" "0 < speed g"
      "speedIncreaseFactor g = 1.3"
      by simp_all
    from update_background [OF False wf ticked.hyps(2), of cw ts] ticked.hyps(3) obtain n where
      b: "scrollLanes rand (bgPatternWidth g) (bgBaseRadius g)
          (speed g' * bgSpeedFactor g * frameDelta g ts) (bgLanes g) (draws g)
        = Some (bgLanes g', n)"
      "bgPatternWidth g' = bgPatternWidth g" "bgSpeedFactor g' = bgSpeedFactor g"
      by auto
    from update_ramp [OF False wf ticked.hyps(2), of cw ts] ticked.hyps(3) ih
    have s: "0 < speed g'" "speedIncreaseFactor g' = 1.3"
      by (auto split: if_splits)
    have "0 < bgPatternWidth g" by (simp add: ih)
    from scrollLanes_post [OF this b(1)] have "\<forall>l \<in> set (bgLanes g'). - 300 < fst l"
      by (simp add: ih)
    with b(2,3) s ih show ?thesis by simp
  qed
next
  case (jumped g i)
  then show ?case by (simp add: jumpPlayer_def)
next
  case (resized g rand cw)
  have "map fst (bgLanes (initBackgroundRadii rand cw g)) = map fst (bgLanes g)"
    by (simp add: initBackgroundRadii_def Let_def split_def initLanes_offsets)
  then have eq: "fst ` set (bgLanes (initBackgroundRadii rand cw g)) = fst ` set (bgLanes g)"
    by (simp only: set_map [symmetric])
  have "(\<forall>l \<in> set (bgLanes (initBackgroundRadii rand cw g)). - 300 < fst l)
      \<longleftrightarrow> (\<forall>x \<in> fst ` set (bgLanes (initBackgroundRadii rand cw g)). - 300 < x)"
    by simp
  also have "\<dots> \<longleftrightarrow> (\<forall>x \<in> fst ` set (bgLanes g). - 300 < x)"
    by (simp only: eq)
  also have "\<dots> \<longleftrightarrow> (\<forall>l \<in> set (bgLanes g). - 300 < fst l)"
    by simp
  finally have "(\<forall>l \<in> set (bgLanes (initBackgroundRadii rand cw g)). - 300 < fst l)
      \<longleftrightarrow> (\<forall>l \<in> set (bgLanes g). - 300 < fst l)" .
  with resized.IH show ?case
    by (simp add: initBackgroundRadii_def Let_def split_def)
qed

subsection \<open>Jumping (C5)\<close>

text \<open>
  Claim C5. \<^verbatim>\<open>jump()\<close> does nothing for a player that is out. On the ground (\<open>y = 0\<close>)
  it sets \<open>vy\<close> to \<open>- jumpVelocity\<close> and grants the double jump; in the air with the
  double jump available it sets \<open>vy\<close> to \<open>- jumpVelocity\<close> and consumes the double
  jump; in the air without it, it changes nothing. \<open>jumpVelocity\<close> is 700 for every
  player the constructor makes. Hence, for a grounded player, a jump, a tick that leaves
  the player in the air, a second jump, and another tick that leaves the player in the
  air: both jumps set \<open>vy\<close>, and a third jump is then without effect.
\<close>

theorem jump_cases:
  "(out p \<longrightarrow> jump p = p)
   \<and> (\<not> out p \<and> p_y p = 0 \<longrightarrow>
        jump p = p\<lparr>vy := - jumpVelocity p, doubleJumpAvailable := True\<rparr>)
   \<and> (\<not> out p \<and> p_y p \<noteq> 0 \<and> doubleJumpAvailable p \<longrightarrow>
        jump p = p\<lparr>vy := - jumpVelocity p, doubleJumpAvailable := False\<rparr>)
   \<and> (p_y p \<noteq> 0 \<and> \<not> doubleJumpAvailable p \<longrightarrow> jump p = p)
   \<and> jumpVelocity (Player nm l b er) = 700
   \<and> (\<not> out p \<and> p_y p = 0 \<longrightarrow>
        (let p1 = updatePhysics (jump p) dt1; p2 = updatePhysics (jump p1) dt2
         in p_y p1 \<noteq> 0 \<and> p_y p2 \<noteq> 0 \<longrightarrow>
              vy (jump p) = - jumpVelocity p \<and> doubleJumpAvailable (jump p)
              \<and> vy (jump p1) = - jumpVelocity p \<and> \<not> doubleJumpAvailable (jump p1)
              \<and> jump p2 = p2))"
proof -
  have seq: "vy (jump p) = - jumpVelocity p \<and> doubleJumpAvailable (jump p)
      \<and> vy (jump (updatePhysics (jump p) dt1)) = - jumpVelocity p
      \<and> \<not> doubleJumpAvailable (jump (updatePhysics (jump p) dt1))
      \<and> jump (updatePhysics (jump (updatePhysics (jump p) dt1)) dt2)
          = updatePhysics (jump (updatePhysics (jump p) dt1)) dt2"
    if g: "\<not> out p" "p_y p = 0"
      and a1: "p_y (updatePhysics (jump p) dt1) \<noteq> 0"
      and a2: "p_y (updatePhysics (jump (updatePhysics (jump p) dt1)) dt2) \<noteq> 0"
  proof -
    let ?j1 = "jump p"
    let ?p1 = "updatePhysics ?j1 dt1"
    let ?j2 = "jump ?p1"
    let ?p2 = "updatePhysics ?j2 dt2"
    have j1: "vy ?j1 = - jumpVelocity p" "doubleJumpAvailable ?j1" "\<not> out ?j1"
      "jumpVelocity ?j1 = jumpVelocity p"
      using g by (simp_all add: jump_def)
    have p1: "doubleJumpAvailable ?p1" "\<not> out ?p1" "jumpVelocity ?p1 = jumpVelocity p"
      using updatePhysics_airborne [OF j1(3) a1] j1
      by (simp_all add: updatePhysics_def Let_def)
    have j2: "vy ?j2 = - jumpVelocity p" "\<not> doubleJumpAvailable ?j2" "\<not> out ?j2"
      using p1 a1 by (simp_all add: jump_def)
    have p2: "\<not> doubleJumpAvailable ?p2"
      using updatePhysics_airborne [OF j2(3) a2] j2 by simp
    have "jump ?p2 = ?p2"
      using p2 a2 by (simp add: jump_def)
    with j1 j2 show ?thesis by simp
  qed
  have branches:
    "out p \<longrightarrow> jump p = p"
    "\<not> out p \<and> p_y p = 0 \<longrightarrow>
       jump p = p\<lparr>vy := - jumpVelocity p, doubleJumpAvailable := True\<rparr>"
    "\<not> out p \<and> p_y p \<noteq> 0 \<and> doubleJumpAvailable p \<longrightarrow>
       jump p = p\<lparr>vy := - jumpVelocity p, doubleJumpAvailable := False\<rparr>"
    "p_y p \<noteq> 0 \<and> \<not> doubleJumpAvailable p \<longrightarrow> jump p = p"
    "jumpVelocity (Player nm l b er) = 700"
    by (simp_all add: jump_def Player_def)
  have scenario: "\<not> out p \<and> p_y p = 0 \<longrightarrow>
        (let p1 = updatePhysics (jump p) dt1; p2 = updatePhysics (jump p1) dt2
         in p_y p1 \<noteq> 0 \<and> p_y p2 \<noteq> 0 \<longrightarrow>
              vy (jump p) = - jumpVelocity p \<and> doubleJumpAvailable (jump p)
              \<and> vy (jump p1) = - jumpVelocity p \<and> \<not> doubleJumpAvailable (jump p1)
              \<and> jump p2 = p2)"
    unfolding Let_def using seq by blast
  from branches scenario show ?thesis
    by blast
qed

theorem jump_cases_witness:
  "\<not> out (Player ''A'' 0 False 0.1) \<and> p_y (Player ''A'' 0 False 0.1) = 0
   \<and> p_y (updatePhysics (jump (Player ''A'' 0 False 0.1)) 0.1) \<noteq> 0
   \<and> p_y (updatePhysics (jump (updatePhysics (jump (Player ''A'' 0 False 0.1)) 0.1)) 0.1) \<noteq> 0
   \<and> vy (jump (Player ''A'' 0 False 0.1)) = - 700
   \<and> vy (jump (updatePhysics (jump (Player ''A'' 0 False 0.1)) 0.1)) = - 700
   \<and> jump (updatePhysics (jump (updatePhysics (jump (Player ''A'' 0 False 0.1)) 0.1)) 0.1)
       = updatePhysics (jump (updatePhysics (jump (Player ''A'' 0 False 0.1)) 0.1)) 0.1
   \<and> out ((Player ''A'' 0 False 0.1)\<lparr>out := True\<rparr>)
   \<and> jump ((Player ''A'' 0 False 0.1)\<lparr>out := True\<rparr>) = (Player ''A'' 0 False 0.1)\<lparr>out := True\<rparr>"
proof -
  let ?p = "Player ''A'' 0 False 0.1"
  have h0: "\<not> out ?p" "p_y ?p = 0" "jumpVelocity ?p = 700"
    by (simp_all add: Player_def)
  have v1: "p_y (updatePhysics (jump ?p) 0.1) = - 50"
    by (simp add: Player_def jump_def updatePhysics_def Let_def)
  have v2: "p_y (updatePhysics (jump (updatePhysics (jump ?p) 0.1)) 0.1) = - 100"
    by (simp add: Player_def jump_def updatePhysics_def Let_def)
  have h3: "out (?p\<lparr>out := True\<rparr>)"
    by simp
  have n1: "p_y (updatePhysics (jump ?p) 0.1) \<noteq> 0"
    using v1 by simp
  have n2: "p_y (updatePhysics (jump (updatePhysics (jump ?p) 0.1)) 0.1) \<noteq> 0"
    using v2 by simp
  note sc = jump_cases [of ?p "''A''" 0 False "0.1" "0.1" "0.1", THEN conjunct2,
      THEN conjunct2, THEN conjunct2, THEN conjunct2, THEN conjunct2, unfolded Let_def,
      rule_format, OF conjI [OF h0(1) h0(2)] conjI [OF n1 n2]]
  have s: "vy (jump ?p) = - 700 \<and> vy (jump (updatePhysics (jump ?p) 0.1)) = - 700
      \<and> jump (updatePhysics (jump (updatePhysics (jump ?p) 0.1)) 0.1)
          = updatePhysics (jump (updatePhysics (jump ?p) 0.1)) 0.1"
    using sc h0(3) by simp
  from jump_cases [of "?p\<lparr>out := True\<rparr>"] h3
  have o: "jump (?p\<lparr>out := True\<rparr>) = ?p\<lparr>out := True\<rparr>"
    by blast
  from h0 n1 n2 h3 s o show ?thesis
    by blast
qed

subsection \<open>The ground clamp (C10)\<close>

text \<open>
  Claim C10. For a player that is not out, \<^verbatim>\<open>updatePhysics\<close> leaves \<open>y \<le> 0\<close>. The
  reset (\<open>y = 0\<close>, \<open>vy = 0\<close>, double jump available) happens exactly when the integrated
  \<open>y\<close> is strictly positive; otherwise, also when it is exactly 0, \<open>y\<close> and \<open>vy\<close> are the
  integrated values and \<open>doubleJumpAvailable\<close> keeps its value. So a new player that
  jumps, lives through a tick of 0.21 s, jumps again and lives through a tick of 0.42 s
  is on the ground (\<open>y = 0\<close>) with \<open>vy = 140\<close> and without a double jump.
\<close>

theorem updatePhysics_ground_reset:
  "(\<not> out p \<longrightarrow>
      p_y (updatePhysics p dt) \<le> 0
      \<and> (p_y p + (vy p + gravity p * dt) * dt > 0 \<longrightarrow>
            p_y (updatePhysics p dt) = 0 \<and> vy (updatePhysics p dt) = 0
            \<and> doubleJumpAvailable (updatePhysics p dt))
      \<and> (p_y p + (vy p + gravity p * dt) * dt \<le> 0 \<longrightarrow>
            p_y (updatePhysics p dt) = p_y p + (vy p + gravity p * dt) * dt
            \<and> vy (updatePhysics p dt) = vy p + gravity p * dt
            \<and> doubleJumpAvailable (updatePhysics p dt) = doubleJumpAvailable p))
   \<and> (out p \<longrightarrow> updatePhysics p dt = p)
   \<and> p_y (updatePhysics (jump (updatePhysics (jump (Player nm l b er)) 0.21)) 0.42) = 0
   \<and> \<not> doubleJumpAvailable (updatePhysics (jump (updatePhysics (jump (Player nm l b er)) 0.21)) 0.42)
   \<and> vy (updatePhysics (jump (updatePhysics (jump (Player nm l b er)) 0.21)) 0.42) = 140
   \<and> \<not> out (updatePhysics (jump (updatePhysics (jump (Player nm l b er)) 0.21)) 0.42)"
  by (simp add: updatePhysics_def Let_def jump_def Player_def)

theorem updatePhysics_ground_reset_witness:
  "\<not> out (jump (updatePhysics (jump (Player ''A'' 0 False 0.1)) 0.21))
   \<and> p_y (jump (updatePhysics (jump (Player ''A'' 0 False 0.1)) 0.21))
        + (vy (jump (updatePhysics (jump (Player ''A'' 0 False 0.1)) 0.21))
           + gravity (jump (updatePhysics (jump (Player ''A'' 0 False 0.1)) 0.21)) * 0.42) * 0.42 \<le> 0
   \<and> p_y (updatePhysics (jump (updatePhysics (jump (Player ''A'' 0 False 0.1)) 0.21)) 0.42) = 0
   \<and> vy (updatePhysics (jump (updatePhysics (jump (Player ''A'' 0 False 0.1)) 0.21)) 0.42) = 140
   \<and> \<not> out (Player ''A'' 0 False 0.1)
   \<and> p_y (Player ''A'' 0 False 0.1)
        + (vy (Player ''A'' 0 False 0.1) + gravity (Player ''A'' 0 False 0.1) * 0.1) * 0.1 > 0
   \<and> vy (updatePhysics (Player ''A'' 0 False 0.1) 0.1) = 0
   \<and> doubleJumpAvailable (updatePhysics (Player ''A'' 0 False 0.1) 0.1)
   \<and> out ((Player ''A'' 0 False 0.1)\<lparr>out := True\<rparr>)
   \<and> updatePhysics ((Player ''A'' 0 False 0.1)\<lparr>out := True\<rparr>) 0.1
        = (Player ''A'' 0 False 0.1)\<lparr>out := True\<rparr>"
proof -
  let ?p = "Player ''A'' 0 False 0.1"
  let ?q = "jump (updatePhysics (jump ?p) 0.21)"
  have q: "\<not> out ?q" "p_y ?q = - 58.8" "vy ?q = - 700" "gravity ?q = 2000"
    by (simp_all add: Player_def jump_def updatePhysics_def Let_def)
  have q0: "p_y ?q + (vy ?q + gravity ?q * 0.42) * 0.42 \<le> 0"
    unfolding q by simp
  have p0: "\<not> out ?p" "p_y ?p + (vy ?p + gravity ?p * 0.1) * 0.1 > 0"
    by (simp_all add: Player_def)
  have o: "out (?p\<lparr>out := True\<rparr>)"
    by simp
  note a = updatePhysics_ground_reset [of ?q "0.42", THEN conjunct1, rule_format, OF q(1),
      THEN conjunct2, THEN conjunct2, rule_format, OF q0]
  note b = updatePhysics_ground_reset [of ?p "0.1", THEN conjunct1, rule_format, OF p0(1),
      THEN conjunct2, THEN conjunct1, rule_format, OF p0(2)]
  note c = updatePhysics_ground_reset [of "?p\<lparr>out := True\<rparr>" "0.1", THEN conjunct2,
      THEN conjunct1, rule_format, OF o]
  have a': "p_y (updatePhysics ?q 0.42) = 0" "vy (updatePhysics ?q 0.42) = 140"
    using a unfolding q by simp_all
  from q(1) q0 a' p0 b o c show ?thesis
    by blast
qed

subsection \<open>The obstacle constructor (C9)\<close>

text \<open>
  Claim C9. The constructor \<^verbatim>\<open>Obstacle\<close> returns an obstacle for every type tag. For
  a tag other than \<^verbatim>\<open>'snake'\<close>, \<^verbatim>\<open>'rock'\<close> and \<^verbatim>\<open>'hole'\<close> (a tag outside the four
  types and \<^verbatim>\<open>undefined\<close> too) it takes the \<^verbatim>\<open>spike\<close> case: the obstacle is the one
  built for \<^verbatim>\<open>'spike'\<close> but for its tag, three random numbers are drawn, and, the draws
  being in \<open>[0, 1)\<close>, the width is in \<open>[50, 80]\<close> and the height in \<open>[40, 60]\<close>.
\<close>

theorem Obstacle_default_spike:
  "ty \<noteq> Str ''snake'' \<and> ty \<noteq> Str ''rock'' \<and> ty \<noteq> Str ''hole''
     \<and> 0 \<le> rand n \<and> rand n < 1 \<and> 0 \<le> rand (n + 1) \<and> rand (n + 1) < 1 \<longrightarrow>
   Obstacle rand n x0 ty = ((fst (Obstacle rand n x0 (Str ''spike'')))\<lparr>o_type := ty\<rparr>, n + 3)
   \<and> o_x (fst (Obstacle rand n x0 ty)) = x0
   \<and> o_type (fst (Obstacle rand n x0 ty)) = ty
   \<and> 50 \<le> o_width (fst (Obstacle rand n x0 ty)) \<and> o_width (fst (Obstacle rand n x0 ty)) \<le> 80
   \<and> 40 \<le> o_height (fst (Obstacle rand n x0 ty)) \<and> o_height (fst (Obstacle rand n x0 ty)) \<le> 60"
  by (simp add: Obstacle_def)

theorem Obstacle_default_spike_witness:
  "Undefined \<noteq> Str ''snake'' \<and> Undefined \<noteq> Str ''rock'' \<and> Undefined \<noteq> Str ''hole''
   \<and> (0::real) \<le> 1 / 2 \<and> (1 / 2 :: real) < 1
   \<and> Obstacle (\<lambda>i. 1 / 2) 0 850 Undefined
        = ((fst (Obstacle (\<lambda>i. 1 / 2) 0 850 (Str ''spike'')))\<lparr>o_type := Undefined\<rparr>, 3)
   \<and> 50 \<le> o_width (fst (Obstacle (\<lambda>i. 1 / 2) 0 850 Undefined))
   \<and> o_width (fst (Obstacle (\<lambda>i. 1 / 2) 0 850 Undefined)) \<le> 80
   \<and> 40 \<le> o_height (fst (Obstacle (\<lambda>i. 1 / 2) 0 850 Undefined))
   \<and> o_height (fst (Obstacle (\<lambda>i. 1 / 2) 0 850 Undefined)) \<le> 60"
  using Obstacle_default_spike [of Undefined "\<lambda>i. 1 / 2" 0 850]
  by (simp add: Obstacle_def)

subsection \<open>The bot's decision (C8)\<close>

text \<open>
  Claim C8. A bot whose error rate is 1 is left unchanged by \<^verbatim>\<open>handleBot\<close> whatever
  the obstacles are, for every draw below 1. In general \<^verbatim>\<open>handleBot\<close> changes the bot
  only by a jump, and only when the bot is on the ground (\<open>y = 0\<close>), the draw exceeds
  the error rate, and the first obstacle whose right edge is right of the bot has its
  left edge nearer than \<open>(jumpVelocity / speed) * 200\<close>.
\<close>

theorem handleBot_jumps_only_when:
  "(rand n < 1 \<and> errorRate bt = 1 \<longrightarrow> fst (handleBot rand sp obs bt n) = bt)
   \<and> (fst (handleBot rand sp obs bt n) \<noteq> bt \<longrightarrow>
        fst (handleBot rand sp obs bt n) = jump bt
        \<and> p_y bt = 0
        \<and> rand n > errorRate bt
        \<and> (\<exists>ob. find (\<lambda>ob. o_x ob + o_width ob > p_x bt) obs = Some ob
              \<and> belowThreshold (o_x ob - p_x bt) (jumpVelocity bt) sp
              \<and> (sp \<noteq> 0 \<longrightarrow> o_x ob - p_x bt < (jumpVelocity bt / sp) * 200)))"
  by (auto simp: handleBot_find belowThreshold_def split: option.split if_splits)

theorem handleBot_jumps_only_when_witness:
  "(1 / 2 :: real) < 1 \<and> errorRate (Player ''Bot 3'' 2 True 1) = 1
   \<and> fst (handleBot (\<lambda>i. 1 / 2) 400
        [\<lparr>o_x = 200, o_type = Str ''rock'', o_width = 50, o_height = 40, o_color = Hsl 30 30 40\<rparr>]
        (Player ''Bot 3'' 2 True 1) 0) = Player ''Bot 3'' 2 True 1
   \<and> fst (handleBot (\<lambda>i. 1 / 2) 400
        [\<lparr>o_x = 200, o_type = Str ''rock'', o_width = 50, o_height = 40, o_color = Hsl 30 30 40\<rparr>]
        (Player ''Bot 2'' 1 True 0.05) 0) \<noteq> Player ''Bot 2'' 1 True 0.05
   \<and> fst (handleBot (\<lambda>i. 1 / 2) 400
        [\<lparr>o_x = 200, o_type = Str ''rock'', o_width = 50, o_height = 40, o_color = Hsl 30 30 40\<rparr>]
        (Player ''Bot 2'' 1 True 0.05) 0) = jump (Player ''Bot 2'' 1 True 0.05)
   \<and> p_y (Player ''Bot 2'' 1 True 0.05) = 0
   \<and> (1 / 2 :: real) > errorRate (Player ''Bot 2'' 1 True 0.05)"
proof -
  let ?obs = "[\<lparr>o_x = 200, o_type = Str ''rock'', o_width = 50, o_height = 40,
                 o_color = Hsl 30 30 40\<rparr>]"
  let ?b3 = "Player ''Bot 3'' 2 True 1"
  let ?b2 = "Player ''Bot 2'' 1 True 0.05"
  have e: "(1 / 2 :: real) < 1 \<and> errorRate ?b3 = 1"
    by (simp add: Player_def)
  have ne: "fst (handleBot (\<lambda>i. 1 / 2) 400 ?obs ?b2 0) \<noteq> ?b2"
    by (simp add: Player_def belowThreshold_def jump_def)
  note a = handleBot_jumps_only_when [of "\<lambda>i. 1 / 2" 0 ?b3 400 ?obs, THEN conjunct1,
      rule_format, OF e]
  note b = handleBot_jumps_only_when [of "\<lambda>i. 1 / 2" 0 ?b2 400 ?obs, THEN conjunct2,
      rule_format, OF ne]
  from e a ne b show ?thesis
    by blast
qed

subsection \<open>Collisions (C4)\<close>

text \<open>
  Claim C4. In a tick, let \<open>q\<close> be a player at the moment of the collision test. If
  \<open>q\<close> is not invulnerable, has \<open>y \<ge> 0\<close> and overlaps an obstacle horizontally, the tick
  leaves the player as \<open>hit q\<close>: one life less, invulnerable, with \<open>invulnTimer = 0.7\<close>.
  The loop ends at the first overlapping obstacle, whatever follows it in the list, so
  the player after the tick is \<open>q\<close> or \<open>hit q\<close> and loses at most one life. While \<open>q\<close> is
  invulnerable the tick takes no life; and a player that is invulnerable with more than
  \<open>dt\<close> left on the timer is still invulnerable at the collision test, so that no life
  is lost during the 0.7 s after a hit.
\<close>

theorem collision_one_hit:
  "(\<not> invulnerable (beforeCollision rand sp obs dt p n)
      \<and> p_y (beforeCollision rand sp obs dt p n) \<ge> 0
      \<and> (\<exists>ob \<in> set obs. overlaps ob (beforeCollision rand sp obs dt p n)) \<longrightarrow>
        fst (updatePlayer rand sp obs dt p n) = hit (beforeCollision rand sp obs dt p n)
        \<and> lives (fst (updatePlayer rand sp obs dt p n)) = lives p - 1
        \<and> invulnerable (fst (updatePlayer rand sp obs dt p n))
        \<and> invulnTimer (fst (updatePlayer rand sp obs dt p n)) = 0.7)
   \<and> (overlaps ob q \<and> p_y q \<ge> 0 \<longrightarrow> collide q (ob # rest) = hit q)
   \<and> (fst (updatePlayer rand sp obs dt p n) = beforeCollision rand sp obs dt p n
       \<or> fst (updatePlayer rand sp obs dt p n) = hit (beforeCollision rand sp obs dt p n))
   \<and> lives p - 1 \<le> lives (fst (updatePlayer rand sp obs dt p n))
   \<and> lives (fst (updatePlayer rand sp obs dt p n)) \<le> lives p
   \<and> (invulnerable (beforeCollision rand sp obs dt p n) \<longrightarrow>
        fst (updatePlayer rand sp obs dt p n) = beforeCollision rand sp obs dt p n
        \<and> lives (fst (updatePlayer rand sp obs dt p n)) = lives p)
   \<and> (\<not> out p \<and> invulnerable p \<and> dt < invulnTimer p \<longrightarrow>
        invulnerable (beforeCollision rand sp obs dt p n)
        \<and> invulnTimer (beforeCollision rand sp obs dt p n) = invulnTimer p - dt)
   \<and> invulnTimer (hit q) = 0.7"
proof -
  have w: "invulnerable (beforeCollision rand sp obs dt p n)
        \<and> invulnTimer (beforeCollision rand sp obs dt p n) = invulnTimer p - dt"
    if "\<not> out p" "invulnerable p" "dt < invulnTimer p"
    using that by (simp add: beforeCollision_def updatePhysics_def Let_def)
  show ?thesis
    using w by (simp add: updatePlayer_eq collide_cases)
qed

theorem collision_one_hit_witness:
  "\<not> invulnerable (beforeCollision (\<lambda>i. 1 / 2) 400
        [\<lparr>o_x = 160, o_type = Str ''rock'', o_width = 50, o_height = 40, o_color = Hsl 30 30 40\<rparr>,
         \<lparr>o_x = 170, o_type = Str ''hole'', o_width = 80, o_height = 1, o_color = Hex ''#000000''\<rparr>]
        0.016 (Player ''A'' 0 False 0.1) 0)
   \<and> p_y (beforeCollision (\<lambda>i. 1 / 2) 400
        [\<lparr>o_x = 160, o_type = Str ''rock'', o_width = 50, o_height = 40, o_color = Hsl 30 30 40\<rparr>,
         \<lparr>o_x = 170, o_type = Str ''hole'', o_width = 80, o_height = 1, o_color = Hex ''#000000''\<rparr>]
        0.016 (Player ''A'' 0 False 0.1) 0) \<ge> 0
   \<and> overlaps \<lparr>o_x = 160, o_type = Str ''rock'', o_width = 50, o_height = 40, o_color = Hsl 30 30 40\<rparr>
        (beforeCollision (\<lambda>i. 1 / 2) 400
        [\<lparr>o_x = 160, o_type = Str ''rock'', o_width = 50, o_height = 40, o_color = Hsl 30 30 40\<rparr>,
         \<lparr>o_x = 170, o_type = Str ''hole'', o_width = 80, o_height = 1, o_color = Hex ''#000000''\<rparr>]
        0.016 (Player ''A'' 0 False 0.1) 0)
   \<and> overlaps \<lparr>o_x = 170, o_type = Str ''hole'', o_width = 80, o_height = 1, o_color = Hex ''#000000''\<rparr>
        (beforeCollision (\<lambda>i. 1 / 2) 400
        [\<lparr>o_x = 160, o_type = Str ''rock'', o_width = 50, o_height = 40, o_color = Hsl 30 30 40\<rparr>,
         \<lparr>o_x = 170, o_type = Str ''hole'', o_width = 80, o_height = 1, o_color = Hex ''#000000''\<rparr>]
        0.016 (Player ''A'' 0 False 0.1) 0)
   \<and> lives (fst (updatePlayer (\<lambda>i. 1 / 2) 400
        [\<lparr>o_x = 160, o_type = Str ''rock'', o_width = 50, o_height = 40, o_color = Hsl 30 30 40\<rparr>,
         \<lparr>o_x = 170, o_type = Str ''hole'', o_width = 80, o_height = 1, o_color = Hex ''#000000''\<rparr>]
        0.016 (Player ''A'' 0 False 0.1) 0)) = 2
   \<and> invulnTimer (fst (updatePlayer (\<lambda>i. 1 / 2) 400
        [\<lparr>o_x = 160, o_type = Str ''rock'', o_width = 50, o_height = 40, o_color = Hsl 30 30 40\<rparr>,
         \<lparr>o_x = 170, o_type = Str ''hole'', o_width = 80, o_height = 1, o_color = Hex ''#000000''\<rparr>]
        0.016 (Player ''A'' 0 False 0.1) 0)) = 0.7
   \<and> \<not> out (hit (Player ''A'' 0 False 0.1))
   \<and> invulnerable (hit (Player ''A'' 0 False 0.1))
   \<and> (0.016 :: real) < invulnTimer (hit (Player ''A'' 0 False 0.1))
   \<and> invulnerable (beforeCollision (\<lambda>i. 1 / 2) 400
        [\<lparr>o_x = 160, o_type = Str ''rock'', o_width = 50, o_height = 40, o_color = Hsl 30 30 40\<rparr>]
        0.016 (hit (Player ''A'' 0 False 0.1)) 0)
   \<and> lives (fst (updatePlayer (\<lambda>i. 1 / 2) 400
        [\<lparr>o_x = 160, o_type = Str ''rock'', o_width = 50, o_height = 40, o_color = Hsl 30 30 40\<rparr>]
        0.016 (hit (Player ''A'' 0 False 0.1)) 0)) = 2"
  using collision_one_hit [of "\<lambda>i. 1 / 2" 400
      "[\<lparr>o_x = 160, o_type = Str ''rock'', o_width = 50, o_height = 40, o_color = Hsl 30 30 40\<rparr>,
        \<lparr>o_x = 170, o_type = Str ''hole'', o_width = 80, o_height = 1, o_color = Hex ''#000000''\<rparr>]"
      "0.016" "Player ''A'' 0 False 0.1" 0]
    collision_one_hit [of "\<lambda>i. 1 / 2" 400
      "[\<lparr>o_x = 160, o_type = Str ''rock'', o_width = 50, o_height = 40, o_color = Hsl 30 30 40\<rparr>]"
      "0.016" "hit (Player ''A'' 0 False 0.1)" 0]
  by (simp add: beforeCollision_def updatePhysics_def Player_def hit_def overlaps_def Let_def)

subsection \<open>The difficulty ramp (C1)\<close>

text \<open>
  Claim C1 says that a tick which takes \<open>elapsedTime\<close> from below 5 to 12 while
  \<open>nextSpeedIncreaseAt\<close> is 5 multiplies the speed twice and leaves
  \<open>nextSpeedIncreaseAt\<close> at 15. The ramp is an \<^verbatim>\<open>if\<close>, not a loop: in \<open>stalled\<close>, whose
  \<open>elapsedTime\<close> is 0, a frame 12 seconds after the last one leaves the speed at
  \<open>400 * 1.3\<close> and \<open>nextSpeedIncreaseAt\<close> at 10.
\<close>

theorem speed_ramp_two_steps_counterexample:
  "elapsedTime stalled = 0 \<and> nextSpeedIncreaseAt stalled = 5
   \<and> speed stalled = 400 \<and> speedIncreaseFactor stalled = 1.3
   \<and> map_option elapsedTime (update halfDraws 800 13000 stalled) = Some 12
   \<and> map_option speed (update halfDraws 800 13000 stalled) = Some (400 * 1.3)
   \<and> map_option speed (update halfDraws 800 13000 stalled) \<noteq> Some (400 * 1.3 * 1.3)
   \<and> map_option nextSpeedIncreaseAt (update halfDraws 800 13000 stalled) = Some 10
   \<and> map_option nextSpeedIncreaseAt (update halfDraws 800 13000 stalled) \<noteq> Some 15"
proof -
  have f: "\<not> gameOver stalled" "elapsedTime stalled = 0"
    "nextSpeedIncreaseAt stalled = 5" "speed stalled = 400"
    "speedIncreaseFactor stalled = 1.3" "frameDelta stalled 13000 = 12"
    by (simp_all add: tick_defs)
  from update_ramp [OF f(1) wellFormed_examples(1) unitDraws_examples(1), of 800 13000]
  obtain g' where "update halfDraws 800 13000 stalled = Some g'"
    "elapsedTime g' = 12" "speed g' = 400 * 1.3" "nextSpeedIncreaseAt g' = 10"
    unfolding f by auto
  with f show ?thesis by simp
qed

text \<open>
  Claim C1, amended. If a tick of a running game takes \<open>elapsedTime\<close> from below 5 to
  12 while \<open>nextSpeedIncreaseAt\<close> is 5, then the tick returns, exactly one
  multiplication by \<open>speedIncreaseFactor\<close> has been applied and \<open>nextSpeedIncreaseAt\<close>
  is 10. The second multiplication is applied by the next tick (for any later or equal
  timestamp), after which \<open>nextSpeedIncreaseAt\<close> is 15.
\<close>

theorem speed_ramp_one_step_per_tick:
  assumes "\<not> gameOver g" "wellFormed g" "unitDraws rand"
    and "nextSpeedIncreaseAt g = 5" "elapsedTime g < 5" "elapsedTime g + frameDelta g ts = 12"
  shows "\<exists>g'. update rand cw ts g = Some g'
     \<and> elapsedTime g' = 12
     \<and> speed g' = speed g * speedIncreaseFactor g
     \<and> nextSpeedIncreaseAt g' = 10
     \<and> (\<forall>rand' cw' ts'. \<not> gameOver g' \<and> unitDraws rand' \<and> ts \<le> ts' \<longrightarrow>
          (\<exists>g''. update rand' cw' ts' g' = Some g''
             \<and> speed g'' = speed g * speedIncreaseFactor g * speedIncreaseFactor g
             \<and> nextSpeedIncreaseAt g'' = 15))"
proof -
  from update_ramp [OF assms(1-3), of cw ts] assms(4-6) obtain g' where
    u: "update rand cw ts g = Some g'"
    and e: "elapsedTime g' = 12" "lastTime g' = Some ts"
      "speed g' = speed g * speedIncreaseFactor g" "nextSpeedIncreaseAt g' = 10"
      "speedIncreaseFactor g' = speedIncreaseFactor g" "wellFormed g'"
    by auto
  have "\<exists>g''. update rand' cw' ts' g' = Some g''
             \<and> speed g'' = speed g * speedIncreaseFactor g * speedIncreaseFactor g
             \<and> nextSpeedIncreaseAt g'' = 15"
    if "\<not> gameOver g'" "unitDraws rand'" "ts \<le> ts'" for rand' cw' ts'
  proof -
    from frameDelta_nonneg [OF e(2) that(3)] have "0 \<le> frameDelta g' ts'" .
    with update_ramp [OF that(1) e(6) that(2), of cw' ts'] e show ?thesis
      by auto
  qed
  with u e show ?thesis by blast
qed

theorem speed_ramp_one_step_per_tick_witness:
  "\<not> gameOver stalled \<and> wellFormed stalled \<and> unitDraws halfDraws
   \<and> nextSpeedIncreaseAt stalled = 5 \<and> elapsedTime stalled < 5
   \<and> elapsedTime stalled + frameDelta stalled 13000 = 12
   \<and> (\<exists>g'. update halfDraws 800 13000 stalled = Some g'
          \<and> elapsedTime g' = 12 \<and> speed g' = 520 \<and> nextSpeedIncreaseAt g' = 10)"
proof -
  have f: "\<not> gameOver stalled" "nextSpeedIncreaseAt stalled = 5"
    "elapsedTime stalled < 5" "elapsedTime stalled + frameDelta stalled 13000 = 12"
    "speed stalled * speedIncreaseFactor stalled = 520"
    by (simp_all add: tick_defs)
  from speed_ramp_one_step_per_tick [OF f(1) wellFormed_examples(1) unitDraws_examples(1) f(2-4),
      of 800]
  obtain g' where "update halfDraws 800 13000 stalled = Some g'"
    "elapsedTime g' = 12" "speed g' = 520" "nextSpeedIncreaseAt g' = 10"
    unfolding f(5) by blast
  with f wellFormed_examples(1) unitDraws_examples(1) show ?thesis by blast
qed

subsection \<open>The time step is not validated (C2)\<close>

text \<open>
  Claim C2 says that the tick rejects a negative time step (and NaN and the
  infinities, which the model of numbers does not have) instead of changing the state.
  \<^verbatim>\<open>update\<close> holds no check of \<open>dt\<close>: in \<open>late\<close>, a frame stamped 1000 ms after a
  last frame at 2000 ms gives \<open>dt = - 1\<close>, and the tick returns a game whose
  \<open>elapsedTime\<close> and whose first player's \<open>time\<close> are \<open>- 1\<close>.
\<close>

theorem update_rejects_bad_dt_counterexample:
  "lastTime late = Some 2000 \<and> frameDelta late 1000 = - 1
   \<and> elapsedTime late = 0 \<and> \<not> out (players late ! 0)
   \<and> time (players late ! 0) = 0
   \<and> map_option elapsedTime (update halfDraws 800 1000 late) = Some (- 1)
   \<and> map_option lastTime (update halfDraws 800 1000 late) = Some (Some 1000)
   \<and> map_option (\<lambda>g. time (players g ! 0)) (update halfDraws 800 1000 late) = Some (- 1)"
proof -
  have f: "\<not> gameOver late" "lastTime late = Some 2000"
    "frameDelta late 1000 = - 1" "elapsedTime late = 0"
    by (simp_all add: tick_defs)
  have p: "0 < length (players late)" "\<not> out (players late ! 0)"
    "time (players late ! 0) = 0"
    by (simp_all add: tick_defs)
  from update_clock [OF f(1) wellFormed_examples(2) unitDraws_examples(1), of 800 1000] p(1,2)
  obtain g' where "update halfDraws 800 1000 late = Some g'"
    "elapsedTime g' = elapsedTime late + frameDelta late 1000" "lastTime g' = Some 1000"
    "time (players g' ! 0) = time (players late ! 0) + frameDelta late 1000"
    by blast
  with f p show ?thesis by simp
qed

text \<open>
  Claim C2, amended. The tick entry point does not check the time step and signals no
  error for a negative one. When the timestamp lies before \<open>lastTime\<close>, so that
  \<open>dt = (timestamp - lastTime) / 1000\<close> is negative, the tick of a reachable running game
  is carried out like any other: it returns a game in which \<open>dt\<close> has been added to
  \<open>elapsedTime\<close> and to the \<open>time\<close> of every player that is not out, \<open>lastTime\<close> is the
  timestamp, the obstacles have moved by \<open>speed * dt\<close> (to the right), no obstacle has
  been spawned, \<open>dt\<close> has been added to \<open>spawnTimer\<close>, and the background offsets have
  moved by \<open>speed * bgSpeedFactor * dt\<close> without a wrap.
\<close>

theorem update_no_dt_validation:
  assumes "reachable g" "\<not> gameOver g" "unitDraws rand" "frameDelta g ts < 0"
  shows "(\<forall>t. lastTime g = Some t \<and> t \<noteq> 0 \<longrightarrow> frameDelta g ts = (ts - t) / 1000)
     \<and> (\<exists>g'. update rand cw ts g = Some g'
           \<and> elapsedTime g' = elapsedTime g + frameDelta g ts
           \<and> lastTime g' = Some ts
           \<and> length (players g') = length (players g)
           \<and> (\<forall>i < length (players g). \<not> out (players g ! i) \<longrightarrow>
                 time (players g' ! i) = time (players g ! i) + frameDelta g ts)
           \<and> obstacles g' = cull (map (\<lambda>ob. ob\<lparr>o_x := o_x ob - speed g' * frameDelta g ts\<rparr>)
                                    (obstacles g))
           \<and> spawnTimer g' = spawnTimer g + frameDelta g ts
           \<and> bgLanes g' = map (\<lambda>(off, radii).
                  (off - speed g' * bgSpeedFactor g * frameDelta g ts, radii)) (bgLanes g))"
proof -
  let ?dt = "frameDelta g ts"
  from reachable_inv [OF assms(1)] have wf: "wellFormed g" by simp
  have a: "\<forall>t. lastTime g = Some t \<and> t \<noteq> 0 \<longrightarrow> ?dt = (ts - t) / 1000"
    by (simp add: frameDelta_def)
  from update_backwards [OF assms, of cw] obtain g' where
    u: "update rand cw ts g = Some g'"
    and c: "elapsedTime g' = elapsedTime g + ?dt" "lastTime g' = Some ts"
      "length (players g') = length (players g)"
      "\<forall>i < length (players g). \<not> out (players g ! i) \<longrightarrow>
           time (players g' ! i) = time (players g ! i) + ?dt"
      "obstacles g' = cull (map (\<lambda>ob. ob\<lparr>o_x := o_x ob - speed g' * ?dt\<rparr>) (obstacles g))"
      "spawnTimer g' = spawnTimer g + ?dt"
    by blast
  from update_background [OF assms(2) wf assms(3), of cw ts] u obtain n where
    s: "scrollLanes rand (bgPatternWidth g) (bgBaseRadius g)
          (speed g' * bgSpeedFactor g * ?dt) (bgLanes g) (draws g) = Some (bgLanes g', n)"
    by auto
  from reachable_background [OF assms(1)]
  have b: "bgPatternWidth g = 300" "bgSpeedFactor g = 0.6"
    "\<forall>l \<in> set (bgLanes g). - bgPatternWidth g < fst l"
    by simp_all
  from reachable_background [OF reachable.ticked [OF assms(1,3) u]] have "0 < speed g'"
    by simp
  with assms(4) b(2) have d: "speed g' * bgSpeedFactor g * ?dt \<le> 0"
    by (simp add: mult_le_0_iff)
  from scrollLanes_idle [OF d b(3), of rand "bgBaseRadius g" "draws g"] s
  have l: "bgLanes g' = map (\<lambda>(off, radii).
                  (off - speed g' * bgSpeedFactor g * ?dt, radii)) (bgLanes g)"
    by simp
  have "\<exists>g'. update rand cw ts g = Some g'
           \<and> elapsedTime g' = elapsedTime g + ?dt
           \<and> lastTime g' = Some ts
           \<and> length (players g') = length (players g)
           \<and> (\<forall>i < length (players g). \<not> out (players g ! i) \<longrightarrow>
                 time (players g' ! i) = time (players g ! i) + ?dt)
           \<and> obstacles g' = cull (map (\<lambda>ob. ob\<lparr>o_x := o_x ob - speed g' * ?dt\<rparr>)
                                    (obstacles g))
           \<and> spawnTimer g' = spawnTimer g + ?dt
           \<and> bgLanes g' = map (\<lambda>(off, radii).
                  (off - speed g' * bgSpeedFactor g * ?dt, radii)) (bgLanes g)"
    by (intro exI [of _ g'] conjI u c l)
  with a show ?thesis by (rule conjI)
qed

theorem update_no_dt_validation_witness:
  "reachable late \<and> \<not> gameOver late \<and> unitDraws halfDraws
   \<and> frameDelta late 1000 < 0
   \<and> lastTime late = Some 2000 \<and> (2000 :: real) \<noteq> 0
   \<and> frameDelta late 1000 = (1000 - 2000) / 1000
   \<and> (\<exists>g'. update halfDraws 800 1000 late = Some g'
          \<and> elapsedTime g' = elapsedTime late + frameDelta late 1000
          \<and> lastTime g' = Some 1000
          \<and> length (players g') = length (players late)
          \<and> spawnTimer g' = spawnTimer late + frameDelta late 1000)"
proof -
  have f: "\<not> gameOver late" "lastTime late = Some 2000 \<and> (2000 :: real) \<noteq> 0"
    "frameDelta late 1000 < 0"
    by (simp_all add: tick_defs)
  note t = update_no_dt_validation [OF reachable_examples(2) f(1) unitDraws_examples(1) f(3),
      of 800]
  from t [THEN conjunct1, rule_format, OF f(2)]
  have d: "frameDelta late 1000 = (1000 - 2000) / 1000" .
  from t [THEN conjunct2] obtain g' where "update halfDraws 800 1000 late = Some g'"
    "elapsedTime g' = elapsedTime late + frameDelta late 1000"
    "lastTime g' = Some 1000" "length (players g') = length (players late)"
    "spawnTimer g' = spawnTimer late + frameDelta late 1000"
    by blast
  with f d reachable_examples(2) unitDraws_examples(1) show ?thesis by blast
qed

subsection \<open>The end of the match (C7)\<close>

text \<open>
  Claim C7. A tick of a game that is over changes nothing, so the match ends once. A
  tick of a running game ends the match exactly when, after the loop over the players,
  the number of players that are out has reached \<open>laneCount\<close> (3 in every game the
  constructor makes). Then \<open>winnerIndex\<close> is the index of a player with the greatest
  \<open>time\<close>, and every player before it in the list has a strictly smaller \<open>time\<close>: among
  equal times the first player wins. Otherwise \<open>winnerIndex\<close> keeps its value. The
  example is \<open>lastLife\<close>, where all three players go out in the same tick, with equal
  times: the match is over after that tick, the winner is player 0, and a later tick
  changes nothing.
\<close>

theorem match_end_and_winner:
  assumes "wellFormed g" "unitDraws rand"
  shows "(gameOver g \<longrightarrow> update rand cw ts g = Some g)
     \<and> (\<not> gameOver g \<longrightarrow>
          (\<exists>g'. update rand cw ts g = Some g'
             \<and> (gameOver g' \<longleftrightarrow> laneCount g \<le> length (filter out (players g')))
             \<and> (\<not> gameOver g' \<longrightarrow> winnerIndex g' = winnerIndex g)
             \<and> (gameOver g' \<and> players g' \<noteq> [] \<longrightarrow>
                  (\<exists>i < length (players g'). winnerIndex g' = Some (int i)
                     \<and> (\<forall>j < length (players g'). time (players g' ! j) \<le> time (players g' ! i))
                     \<and> (\<forall>j < i. time (players g' ! j) < time (players g' ! i))))))
     \<and> laneCount (Game rand n0 cw nms k) = 3"
proof -
  have a: "gameOver g \<longrightarrow> update rand cw ts g = Some g"
    by (simp add: update_def)
  have b: "\<exists>g'. update rand cw ts g = Some g'
             \<and> (gameOver g' \<longleftrightarrow> laneCount g \<le> length (filter out (players g')))
             \<and> (\<not> gameOver g' \<longrightarrow> winnerIndex g' = winnerIndex g)
             \<and> (gameOver g' \<and> players g' \<noteq> [] \<longrightarrow>
                  (\<exists>i < length (players g'). winnerIndex g' = Some (int i)
                     \<and> (\<forall>j < length (players g'). time (players g' ! j) \<le> time (players g' ! i))
                     \<and> (\<forall>j < i. time (players g' ! j) < time (players g' ! i))))"
    if "\<not> gameOver g"
  proof -
    from update_summary [OF that assms, of cw ts] obtain g' where
      u: "update rand cw ts g = Some g'"
      and o: "gameOver g' \<longleftrightarrow> laneCount g \<le> length (filter out (players g'))"
      and w: "winnerIndex g' = (if gameOver g' then Some (findWinner (players g') 0 None (- 1))
                          else winnerIndex g)"
      by blast
    have "\<exists>i < length (players g'). winnerIndex g' = Some (int i)
                     \<and> (\<forall>j < length (players g'). time (players g' ! j) \<le> time (players g' ! i))
                     \<and> (\<forall>j < i. time (players g' ! j) < time (players g' ! i))"
      if "gameOver g'" "players g' \<noteq> []"
      using findWinner_first_max [OF that(2)] w that(1) by simp
    with u o w show ?thesis by auto
  qed
  have c: "laneCount (Game rand n0 cw nms k) = 3"
    by (simp add: Game_def randomSpawnInterval_def initializePlayers_def
        initBackgroundRadii_def Let_def split_def)
  from a b c show ?thesis by blast
qed

theorem match_end_and_winner_witness:
  "wellFormed lastLife \<and> unitDraws zeroDraws \<and> \<not> gameOver lastLife
   \<and> map out (players lastLife) = [False, False, False]
   \<and> map lives (players lastLife) = [1, 1, 1]
   \<and> map_option (\<lambda>g. (gameOver g, winnerIndex g, map out (players g), map time (players g)))
        (update zeroDraws 100 3250 lastLife)
      = Some (True, Some 0, [True, True, True], [2.25, 2.25, 2.25])
   \<and> gameOver (frame zeroDraws 100 3250 lastLife)
   \<and> update zeroDraws 100 4000 (frame zeroDraws 100 3250 lastLife)
        = Some (frame zeroDraws 100 3250 lastLife)"
proof -
  have f: "\<not> gameOver lastLife" "map out (players lastLife) = [False, False, False]"
    "map lives (players lastLife) = [1, 1, 1]"
    by (simp_all add: tick_defs)
  have e: "map_option (\<lambda>g. (gameOver g, winnerIndex g, map out (players g), map time (players g)))
        (update zeroDraws 100 3250 lastLife)
      = Some (True, Some 0, [True, True, True], [2.25, 2.25, 2.25])"
    by (simp add: tick_defs)
  note r = reachable_frame [OF reachable_examples(4) unitDraws_examples(2), of 100 3250]
  from e r(1) have o: "gameOver (frame zeroDraws 100 3250 lastLife)"
    by auto
  from reachable_inv [OF r(2)] have w: "wellFormed (frame zeroDraws 100 3250 lastLife)"
    by simp
  from match_end_and_winner [OF w unitDraws_examples(2), of 100 4000, THEN conjunct1] o
  have u: "update zeroDraws 100 4000 (frame zeroDraws 100 3250 lastLife)
        = Some (frame zeroDraws 100 3250 lastLife)"
    by blast
  from match_end_and_winner [OF wellFormed_examples(4) unitDraws_examples(2), of 100 3250]
    f e o u wellFormed_examples(4) unitDraws_examples(2)
  show ?thesis by blast
qed

subsection \<open>Lives, survival time and elimination (C3)\<close>

text \<open>
  Claim C3. For every reachable game, every random source and every player \<open>i\<close>, a tick
  returns a reachable game, and for the player \<open>p\<close> before and \<open>p'\<close> after the tick:
  a player that is out is not changed at all, so its \<open>time\<close> is frozen and it stays out;
  a player that is not out gains \<open>dt\<close> of \<open>time\<close> (in a running game); \<open>lives\<close> never
  grows and falls by at most one, and it falls only for a player that is not out, by a
  collision: at the collision test the player is not invulnerable, has \<open>y \<ge> 0\<close> and
  overlaps an obstacle, and \<open>p'\<close> is that player after the hit; \<open>out\<close> holds exactly
  when \<open>lives\<close> is 0, before and after the tick, so \<open>out\<close> turns true exactly in the tick
  in which \<open>lives\<close> goes from 1 to 0. A jump changes none of \<open>time\<close>, \<open>lives\<close>, \<open>out\<close>.
\<close>

theorem agent_life_cycle:
  assumes "reachable g" "unitDraws rand" "i < length (players g)"
  shows "\<exists>g'. update rand cw ts g = Some g' \<and> reachable g'
     \<and> length (players g') = length (players g)
     \<and> (out (players g ! i) \<longleftrightarrow> lives (players g ! i) = 0)
     \<and> (out (players g' ! i) \<longleftrightarrow> lives (players g' ! i) = 0)
     \<and> 0 \<le> lives (players g' ! i)
     \<and> (out (players g ! i) \<longrightarrow> players g' ! i = players g ! i)
     \<and> (\<not> out (players g ! i) \<and> \<not> gameOver g \<longrightarrow>
          time (players g' ! i) = time (players g ! i) + frameDelta g ts)
     \<and> lives (players g' ! i) \<le> lives (players g ! i)
     \<and> lives (players g ! i) - 1 \<le> lives (players g' ! i)
     \<and> (lives (players g' ! i) < lives (players g ! i) \<longrightarrow>
          \<not> out (players g ! i)
          \<and> (\<exists>m. \<not> invulnerable (beforeCollision rand (speed g') (obstacles g')
                       (frameDelta g ts) (players g ! i) m)
                \<and> p_y (beforeCollision rand (speed g') (obstacles g')
                       (frameDelta g ts) (players g ! i) m) \<ge> 0
                \<and> (\<exists>ob \<in> set (obstacles g'). overlaps ob
                       (beforeCollision rand (speed g') (obstacles g')
                          (frameDelta g ts) (players g ! i) m))
                \<and> players g' ! i = hit (beforeCollision rand (speed g') (obstacles g')
                       (frameDelta g ts) (players g ! i) m)))
     \<and> (out (players g' ! i) \<and> \<not> out (players g ! i) \<longleftrightarrow>
          lives (players g ! i) = 1 \<and> lives (players g' ! i) = 0)
     \<and> time (jump (players g ! i)) = time (players g ! i)
     \<and> lives (jump (players g ! i)) = lives (players g ! i)
     \<and> out (jump (players g ! i)) = out (players g ! i)"
proof -
  let ?p = "players g ! i"
  from reachable_inv [OF assms(1)] assms(3) have wf: "wellFormed g" and inv: "lifeInv ?p"
    by simp_all
  show ?thesis
  proof (cases "gameOver g")
    case True
    then have u: "update rand cw ts g = Some g"
      by (simp add: update_def)
    with inv assms(1) True show ?thesis
      by (auto simp: lifeInv_def)
  next
    case False
    from update_players [OF False wf assms(2), of cw ts] obtain g' m0 where
      u: "update rand cw ts g = Some g'"
      and ps: "players g' = fst (updatePlayers rand (speed g') (obstacles g') (frameDelta g ts) (players g) m0)"
      by blast
    have r: "reachable g'"
      by (rule reachable.ticked [OF assms(1,2) u])
    have l: "length (players g') = length (players g)"
      by (simp add: ps updatePlayers_length)
    from reachable_inv [OF r] assms(3) l have inv': "lifeInv (players g' ! i)"
      by simp
    from updatePlayers_nth [OF assms(3), of rand "speed g'" "obstacles g'" "frameDelta g ts" m0]
    obtain m where
      n: "players g' ! i = (if out ?p then ?p
            else fst (updatePlayer rand (speed g') (obstacles g') (frameDelta g ts) ?p m))"
      unfolding ps by blast
    show ?thesis
    proof (cases "out ?p")
      case True
      with n u r l inv show ?thesis
        by (auto simp: lifeInv_def)
    next
      case no: False
      let ?q = "beforeCollision rand (speed g') (obstacles g') (frameDelta g ts) ?p m"
      from n no have n': "players g' ! i
          = fst (updatePlayer rand (speed g') (obstacles g') (frameDelta g ts) ?p m)"
        by simp
      have t: "time (players g' ! i) = time ?p + frameDelta g ts"
        by (simp add: n' updatePlayer_time [OF no])
      from updatePlayer_cases [of rand "speed g'" "obstacles g'" "frameDelta g ts" ?p m]
      consider (same) "players g' ! i = ?q"
        | (hit) "\<not> invulnerable ?q" "p_y ?q \<ge> 0" "\<exists>ob \<in> set (obstacles g'). overlaps ob ?q"
                "players g' ! i = hit ?q"
        unfolding n' by blast
      then show ?thesis
      proof cases
        case same
        with u r l inv inv' t no show ?thesis
          by (auto simp: lifeInv_def)
      next
        case hit
        have lv: "lives (players g' ! i) = lives ?p - 1"
          by (simp add: hit(4))
        have ex: "\<exists>m. \<not> invulnerable (beforeCollision rand (speed g') (obstacles g')
                       (frameDelta g ts) ?p m)
                \<and> p_y (beforeCollision rand (speed g') (obstacles g')
                       (frameDelta g ts) ?p m) \<ge> 0
                \<and> (\<exists>ob \<in> set (obstacles g'). overlaps ob
                       (beforeCollision rand (speed g') (obstacles g')
                          (frameDelta g ts) ?p m))
                \<and> players g' ! i = hit (beforeCollision rand (speed g') (obstacles g')
                       (frameDelta g ts) ?p m)"
          using hit by blast
        from u r l inv inv' t no lv ex show ?thesis
          by (auto simp: lifeInv_def)
      qed
    qed
  qed
qed

theorem agent_life_cycle_witness:
  "reachable narrow \<and> unitDraws zeroDraws \<and> 0 < length (players narrow)
   \<and> \<not> gameOver narrow
   \<and> \<not> out (players narrow ! 0) \<and> lives (players narrow ! 0) = 3
   \<and> time (players narrow ! 0) = 0
   \<and> map_option (\<lambda>g. (lives (players g ! 0), out (players g ! 0), time (players g ! 0),
                       invulnerable (players g ! 0), map o_x (obstacles g)))
        (update zeroDraws 100 1750 narrow)
      = Some (2, False, 0.75, True, [150])"
proof -
  have f: "0 < length (players narrow)" "\<not> gameOver narrow"
    "\<not> out (players narrow ! 0)" "lives (players narrow ! 0) = 3"
    "time (players narrow ! 0) = 0"
    by (simp_all add: tick_defs)
  have e: "map_option (\<lambda>g. (lives (players g ! 0), out (players g ! 0), time (players g ! 0),
                       invulnerable (players g ! 0), map o_x (obstacles g)))
        (update zeroDraws 100 1750 narrow)
      = Some (2, False, 0.75, True, [150])"
    by (simp add: tick_defs)
  from agent_life_cycle [OF reachable_examples(3) unitDraws_examples(2) f(1), of 100 1750]
    reachable_examples(3) f e unitDraws_examples(2)
  show ?thesis by blast
qed

subsection \<open>The spawn schedule (C6)\<close>




end
